theory Spec2Isabelle
  imports Complex_Main "HOL-Library.Multiset" "HOL-Library.Char_ord" "HOL-Library.List_Lexorder"
begin

section \<open>Batch reporter: \<^verbatim>\<open>scripts/lyria-batches.py\<close>\<close>

subsection \<open>Data model\<close>

text \<open>
  A track record is a JSON object with four optional fields. The fields \<^verbatim>\<open>bpm\<close> and
  \<^verbatim>\<open>energy\<close> are only ever formatted into an f-string, so they are kept as the text that
  the f-string shows for them. The loaded mapping \<^verbatim>\<open>data\<close> is a Python dict; what the
  script uses of it is \<^verbatim>\<open>data.items()\<close>, the (identifier, record) pairs in insertion order.
\<close>

record info =
  playlist :: "string option"
  audioPrompt :: "string option"
  bpm :: "string option"
  energy :: "string option"

type_synonym track = "string \<times> info"

text \<open>
  \<^verbatim>\<open>playlists\<close> is a dict from playlist name to a list of pairs. Dicts iterate in
  insertion order and \<^verbatim>\<open>sorted\<close> is stable, so the order of the keys is observable:
  the dict is an association list, new keys added at the end.
\<close>

type_synonym grouping = "(string \<times> track list) list"

definition newline :: char where
  "newline = CHR 0x0A"

definition squote :: char where
  "squote = CHR 0x27"

definition dquote :: char where
  "dquote = CHR 0x22"

text \<open>Decimal rendering of a non-negative integer, as \<^verbatim>\<open>{n}\<close> in an f-string.\<close>

fun str_nat :: "nat \<Rightarrow> string" where
  "str_nat n =
     (if n < 10 then [char_of (48 + n)]
      else str_nat (n div 10) @ [char_of (48 + n mod 10)])"

declare str_nat.simps [simp del]

subsection \<open>Grouping by playlist (lines 26--29)\<close>

text \<open>\<^verbatim>\<open>info.get('playlist', 'Uncategorized')\<close>\<close>

definition get_playlist :: "info \<Rightarrow> string" where
  "get_playlist i = (case playlist i of None \<Rightarrow> ''Uncategorized'' | Some p \<Rightarrow> p)"

text \<open>\<^verbatim>\<open>playlists.setdefault(pl, []).append(v)\<close>\<close>

fun setdefault_append :: "grouping \<Rightarrow> string \<Rightarrow> track \<Rightarrow> grouping" where
  "setdefault_append [] pl v = [(pl, [v])]"
| "setdefault_append ((k, vs) # rest) pl v =
     (if k = pl then (k, vs @ [v]) # rest else (k, vs) # setdefault_append rest pl v)"

definition group_step :: "grouping \<Rightarrow> track \<Rightarrow> grouping" where
  "group_step g t = (let pl = get_playlist (snd t) in setdefault_append g pl t)"

definition build_playlists :: "track list \<Rightarrow> grouping" where
  "build_playlists data = foldl group_step [] data"

subsection \<open>Program state and printing\<close>

record state =
  playlists :: grouping
  stdout :: string

text \<open>The state after the module-level code has run on the loaded mapping.\<close>

definition load :: "track list \<Rightarrow> state" where
  "load data = \<lparr>playlists = build_playlists data, stdout = []\<rparr>"

text \<open>\<^verbatim>\<open>print(line)\<close> writes the text and a newline.\<close>

definition print :: "string \<Rightarrow> state \<Rightarrow> state" where
  "print line s = s\<lparr>stdout := stdout s @ line @ [newline]\<rparr>"

subsection \<open>\<^verbatim>\<open>print_playlist_summary\<close> (lines 31--40)\<close>

text \<open>The sequence the loop of line 36 iterates over: a stable sort on the key
  \<^verbatim>\<open>-len(x[1])\<close>.\<close>

definition summary_order :: "grouping \<Rightarrow> (string \<times> track list) list" where
  "summary_order g = sort_key (\<lambda>x. - int (length (snd x))) g"

text \<open>The f-string of line 38.\<close>

definition summary_line :: "string \<Rightarrow> nat \<Rightarrow> nat \<Rightarrow> string" where
  "summary_line pl n batches =
     ''  '' @ pl @ '': '' @ str_nat n @ '' tracks ('' @ str_nat batches @ '' batches)''"

definition summary_body :: "string \<times> track list \<Rightarrow> state \<Rightarrow> state" where
  "summary_body x s =
     (case x of (pl, tracks) \<Rightarrow>
        let batches = (length tracks + 5) div 6
        in print (summary_line pl (length tracks) batches) s)"

definition print_playlist_summary :: "state \<Rightarrow> state" where
  "print_playlist_summary s =
     (let s1 = print (replicate 60 (CHR ''='')) s;
          s2 = print ''AVAILABLE PLAYLISTS'' s1;
          s3 = print (replicate 60 (CHR ''='')) s2;
          s4 = fold summary_body (summary_order (playlists s3)) s3;
          s5 = print [] s4
      in print (''Usage: python scripts/lyria-batches.py '' @ [dquote] @ ''Playlist Name''
                @ [dquote]) s5)"

subsection \<open>\<^verbatim>\<open>print_batch\<close> (lines 42--78)\<close>

text \<open>
  \<^verbatim>\<open>range(start, stop, step)\<close> on non-negative integers. Python raises for a zero step;
  the only call in the source has the literal step 6.
\<close>

function range_py :: "nat \<Rightarrow> nat \<Rightarrow> nat \<Rightarrow> nat list" where
  "range_py start stop step =
     (if step = 0 then []
      else if start < stop then start # range_py (start + step) stop step
      else [])"
  by pat_completeness auto
termination
  by (relation "measure (\<lambda>(start, stop, step). stop - start)") auto

declare range_py.simps [simp del]

text \<open>The slice \<^verbatim>\<open>xs[i:j]\<close> for non-negative \<open>i\<close> and \<open>j\<close>.\<close>

definition slice :: "'a list \<Rightarrow> nat \<Rightarrow> nat \<Rightarrow> 'a list" where
  "slice xs i j = drop i (take j xs)"

text \<open>Lines 70--75: the block printed for one track.\<close>

definition print_prompt :: "track \<Rightarrow> state \<Rightarrow> state" where
  "print_prompt t s =
     (case t of (pid, i) \<Rightarrow>
        let prompt = (case audioPrompt i of None \<Rightarrow> ''No prompt'' | Some p \<Rightarrow> p);
            b = (case bpm i of None \<Rightarrow> ''?'' | Some v \<Rightarrow> v);
            e = (case energy i of None \<Rightarrow> ''?'' | Some v \<Rightarrow> v);
            s1 = print ([newline] @ ''['' @ pid @ ''] ('' @ b @ '' BPM, '' @ e @ '' energy)'') s
        in print (''  '' @ prompt) s1)"

text \<open>Lines 58--78: everything printed for one batch, given its number and its tracks.\<close>

definition print_chunk :: "nat \<Rightarrow> track list \<Rightarrow> state \<Rightarrow> state" where
  "print_chunk batch_num batch s =
     (let s1 = print ([newline] @ ''--- BATCH '' @ str_nat batch_num @ '' (''
                      @ str_nat (length batch) @ '' tracks) ---'') s;
          s2 = print [] s1;
          s3 = print ''Filenames (for export):'' s2;
          s4 = fold (\<lambda>t. print (''  '' @ fst t @ ''.wav'')) batch s3;
          s5 = print [] s4;
          s6 = print ''Audio prompts for Gemini/Lyria:'' s5;
          s7 = print (replicate 40 (CHR ''-'')) s6;
          s8 = fold print_prompt batch s7;
          s9 = print [] s8
      in print (replicate 60 (CHR ''='')) s9)"

text \<open>Lines 55--56 and the call of the body: one iteration of the loop of line 54.\<close>

definition batch_body :: "track list \<Rightarrow> nat \<Rightarrow> state \<Rightarrow> state" where
  "batch_body tracks i s =
     (let batch = slice tracks i (i + 6);
          batch_num = i div 6 + 1
      in print_chunk batch_num batch s)"

text \<open>Lines 50--52.\<close>

definition print_banner :: "string \<Rightarrow> state \<Rightarrow> state" where
  "print_banner playlist_name s =
     (let s1 = print ([newline] @ replicate 60 (CHR ''='')) s;
          s2 = print (''LYRIA BATCHES: '' @ playlist_name) s1
      in print (replicate 60 (CHR ''='')) s2)"

definition print_batch :: "string \<Rightarrow> state \<Rightarrow> state" where
  "print_batch playlist_name s =
     (case map_of (playlists s) playlist_name of
        None \<Rightarrow>
          print_playlist_summary
            (print (''Playlist '' @ [squote] @ playlist_name @ [squote] @ '' not found.'') s)
      | Some tracks \<Rightarrow>
          fold (batch_body tracks) (range_py 0 (length tracks) 6)
            (print_banner playlist_name s))"

subsection \<open>\<^verbatim>\<open>print_all_batches\<close> (lines 80--83)\<close>

datatype py_error =
  KeyError | ReError | FileNotFoundError | UnicodeDecodeError | UnicodeEncodeError

text \<open>\<^verbatim>\<open>d[k]\<close> raises \<^verbatim>\<open>KeyError\<close> for a missing key.\<close>

definition getitem :: "('k \<times> 'v) list \<Rightarrow> 'k \<Rightarrow> py_error + 'v" where
  "getitem d k = (case map_of d k of None \<Rightarrow> Inl KeyError | Some v \<Rightarrow> Inr v)"

text \<open>
  \<^verbatim>\<open>sorted(xs, key=f)\<close> with a key function that may raise: the keys of all elements are
  computed first, in order, and the first exception ends the call; then the elements are
  sorted by their keys, stably.
\<close>

fun compute_keys :: "('a \<Rightarrow> py_error + int) \<Rightarrow> 'a list \<Rightarrow> py_error + (int \<times> 'a) list" where
  "compute_keys f [] = Inr []"
| "compute_keys f (x # xs) =
     (case f x of
        Inl e \<Rightarrow> Inl e
      | Inr k \<Rightarrow> (case compute_keys f xs of Inl e \<Rightarrow> Inl e | Inr ks \<Rightarrow> Inr ((k, x) # ks)))"

definition sorted_py :: "('a \<Rightarrow> py_error + int) \<Rightarrow> 'a list \<Rightarrow> py_error + 'a list" where
  "sorted_py f xs =
     (case compute_keys f xs of
        Inl e \<Rightarrow> Inl e
      | Inr ks \<Rightarrow> Inr (map snd (sort_key fst ks)))"

text \<open>The key of line 82: \<^verbatim>\<open>lambda x: -len(playlists[x])\<close>.\<close>

definition all_key :: "grouping \<Rightarrow> string \<Rightarrow> py_error + int" where
  "all_key g x = (case getitem g x of Inl e \<Rightarrow> Inl e | Inr ts \<Rightarrow> Inr (- int (length ts)))"

text \<open>The sequence of names the loop of line 82 iterates over.\<close>

definition all_order :: "grouping \<Rightarrow> py_error + string list" where
  "all_order g = sorted_py (all_key g) (map fst g)"

definition print_all_batches :: "state \<Rightarrow> py_error + state" where
  "print_all_batches s =
     (case all_order (playlists s) of
        Inl e \<Rightarrow> Inl e
      | Inr names \<Rightarrow> Inr (fold print_batch names s))"

subsection \<open>Derived notions used to state the properties\<close>

text \<open>The fixed text before and after the per-group lines of the summary.\<close>

definition summary_header :: string where
  "summary_header = replicate 60 (CHR ''='') @ [newline] @ ''AVAILABLE PLAYLISTS'' @ [newline]
     @ replicate 60 (CHR ''='') @ [newline]"

definition summary_footer :: string where
  "summary_footer = [newline] @ ''Usage: python scripts/lyria-batches.py '' @ [dquote]
     @ ''Playlist Name'' @ [dquote] @ [newline]"

text \<open>What \<^verbatim>\<open>print_playlist_summary\<close> writes when it is run on a grouping.\<close>

definition summary_text :: "grouping \<Rightarrow> string" where
  "summary_text g = stdout (print_playlist_summary \<lparr>playlists = g, stdout = []\<rparr>)"

text \<open>The line of line 45.\<close>

definition not_found_message :: "string \<Rightarrow> string" where
  "not_found_message name = ''Playlist '' @ [squote] @ name @ [squote] @ '' not found.''"

text \<open>The records of the loaded mapping that carry a playlist name, in the mapping's order.\<close>

definition members :: "string \<Rightarrow> track list \<Rightarrow> track list" where
  "members pl data = filter (\<lambda>t. get_playlist (snd t) = pl) data"

text \<open>The (number, chunk) pairs that the loop of line 54 computes, in order.\<close>

definition batches :: "'a list \<Rightarrow> (nat \<times> 'a list) list" where
  "batches tracks =
     map (\<lambda>i. (i div 6 + 1, slice tracks i (i + 6))) (range_py 0 (length tracks) 6)"

text \<open>A small loaded mapping: eight tracks of one playlist and one track without a playlist.\<close>

definition hc :: info where
  "hc = \<lparr>playlist = Some ''Haunted Cartridge'', audioPrompt = Some ''slow chiptune'',
          bpm = Some ''90'', energy = None\<rparr>"

definition loose :: info where
  "loose = \<lparr>playlist = None, audioPrompt = None, bpm = None, energy = Some ''low''\<rparr>"

definition hc_tracks :: "track list" where
  "hc_tracks = [(''p1'', hc), (''p2'', hc), (''p4'', hc), (''p5'', hc), (''p6'', hc), (''p7'', hc),
                (''p8'', hc), (''p9'', hc)]"

definition demo_data :: "track list" where
  "demo_data = [(''p1'', hc), (''p2'', hc), (''p3'', loose), (''p4'', hc), (''p5'', hc),
                (''p6'', hc), (''p7'', hc), (''p8'', hc), (''p9'', hc)]"

section \<open>Audio-list synchronizer: \<^verbatim>\<open>scripts/sync-audio.py\<close>\<close>

subsection \<open>Collecting the file names (line 21)\<close>

text \<open>
  A \<^typ>\<open>string\<close> holds bytes: for a text, the bytes of its UTF-8 encoding; for the name of a
  directory entry, the bytes of the name. Python decodes a name byte by byte where it is not
  UTF-8, so that every name stands for one Python string and the other way round.

  The directory \<^verbatim>\<open>public/audio\<close> is the list of the names of its entries, in the order in
  which the system lists them. \<^verbatim>\<open>audio_dir.glob("*.wav")\<close> keeps the entries whose whole name
  matches the wildcard: the star stands for any text, the empty one and one that starts with
  a dot included, and the comparison is by case (POSIX).
\<close>

definition glob_wav :: "string \<Rightarrow> bool" where
  "glob_wav name = (4 \<le> length name \<and> drop (length name - 4) name = ''.wav'')"

text \<open>\<^verbatim>\<open>name.rfind(c)\<close>: the index of the last occurrence, \<open>-1\<close> when there is none.\<close>

fun rfind :: "char \<Rightarrow> string \<Rightarrow> int" where
  "rfind c [] = - 1"
| "rfind c (x # xs) =
     (let i = rfind c xs in if 0 \<le> i then i + 1 else if x = c then 0 else - 1)"

text \<open>
  \<^verbatim>\<open>PurePath.stem\<close>:
  \<^verbatim>\<open>i = name.rfind('.'); return name[:i] if 0 < i < len(name) - 1 else name\<close>.
\<close>

definition stem :: "string \<Rightarrow> string" where
  "stem name =
     (let i = rfind (CHR ''.'') name
      in if 0 < i \<and> i < int (length name) - 1 then take (nat i) name else name)"

text \<open>
  \<^verbatim>\<open>sorted([f.stem for f in audio_dir.glob("*.wav")])\<close>. Python compares strings code point
  by code point; on the bytes of their UTF-8 encoding, which a \<^typ>\<open>string\<close> holds, the
  lexicographic order is the same. (Among names that are not UTF-8 the order of Python can
  differ from the order of the bytes; the model sorts the bytes.)
\<close>

definition audio_files :: "string list \<Rightarrow> string list" where
  "audio_files listing = sort (map stem (filter glob_wav listing))"

subsection \<open>Rendering the block (lines 28--31)\<close>

definition block_open :: string where
  "block_open = ''const AVAILABLE_AUDIO = new Set(['' @ [newline]"

definition block_close :: string where
  "block_close = '']);''"

definition name_line :: "string \<Rightarrow> string" where
  "name_line f = ''  '' @ [squote] @ f @ [squote] @ '','' @ [newline]"

definition set_content :: "string list \<Rightarrow> string" where
  "set_content files = foldl (\<lambda>acc f. acc @ name_line f) block_open files @ block_close"

subsection \<open>The pattern of line 42\<close>

text \<open>
  The pattern is the literal \<^verbatim>\<open>const AVAILABLE_AUDIO = new Set([\<close> and a line feed, then
  any number of lines \<^verbatim>\<open>  '[^']+',\<close> each ended by a line feed, then the literal \<^verbatim>\<open>]);\<close>.
  A matcher takes the text at a position and returns the text after the match.
\<close>

fun literal :: "string \<Rightarrow> string \<Rightarrow> string option" where
  "literal [] s = Some s"
| "literal (p # ps) [] = None"
| "literal (p # ps) (c # cs) = (if p = c then literal ps cs else None)"

text \<open>
  One name line. \<^verbatim>\<open>[^']+\<close> takes every character up to the next quote; it cannot take
  fewer, since what follows it in the pattern is a quote.
\<close>

definition match_line :: "string \<Rightarrow> string option" where
  "match_line s =
     (case literal (''  '' @ [squote]) s of
        None \<Rightarrow> None
      | Some r \<Rightarrow>
          if takeWhile (\<lambda>c. c \<noteq> squote) r = [] then None
          else literal ([squote] @ '','' @ [newline]) (dropWhile (\<lambda>c. c \<noteq> squote) r))"

lemma literal_Some: "literal p s = Some r \<Longrightarrow> s = p @ r"
  by (induction p s rule: literal.induct) (auto split: if_splits)

lemma match_line_shorter: "match_line s = Some r \<Longrightarrow> length r < length s"
proof -
  assume m: "match_line s = Some r"
  then obtain r1 where r1: "literal (''  '' @ [squote]) s = Some r1"
    and r: "literal ([squote] @ '','' @ [newline]) (dropWhile (\<lambda>c. c \<noteq> squote) r1) = Some r"
    by (auto simp: match_line_def split: option.splits if_splits)
  from literal_Some[OF r1] have "length r1 < length s" by simp
  moreover from literal_Some[OF r] have "length r < length (dropWhile (\<lambda>c. c \<noteq> squote) r1)"
    by simp
  moreover have "length (dropWhile (\<lambda>c. c \<noteq> squote) r1) \<le> length r1"
    by (rule length_dropWhile_le)
  ultimately show ?thesis by simp
qed

text \<open>The starred group: as many name lines as there are.\<close>

function match_lines :: "string \<Rightarrow> string" where
  "match_lines s = (case match_line s of None \<Rightarrow> s | Some r \<Rightarrow> match_lines r)"
  by pat_completeness auto
termination
  by (relation "measure length") (auto dest: match_line_shorter)

declare match_lines.simps [simp del]

text \<open>The whole pattern, matched at the start of \<open>s\<close>.\<close>

definition match_block :: "string \<Rightarrow> string option" where
  "match_block s =
     (case literal block_open s of
        None \<Rightarrow> None
      | Some r \<Rightarrow> literal block_close (match_lines r))"

lemma match_lines_length: "length (match_lines s) \<le> length s"
proof (induction s rule: match_lines.induct)
  case (1 s)
  show ?case
  proof (cases "match_line s")
    case None
    then show ?thesis by (subst match_lines.simps) simp
  next
    case (Some r)
    with 1 have "length (match_lines r) \<le> length r" by simp
    moreover from Some have "length r < length s" by (rule match_line_shorter)
    ultimately show ?thesis using Some by (subst match_lines.simps) simp
  qed
qed

lemma match_block_shorter: "match_block s = Some r \<Longrightarrow> length r < length s"
proof -
  assume "match_block s = Some r"
  then obtain r1 where r1: "literal block_open s = Some r1"
    and r: "literal block_close (match_lines r1) = Some r"
    by (auto simp: match_block_def split: option.splits)
  from literal_Some[OF r1] have "length r1 < length s" by (simp add: block_open_def)
  moreover from literal_Some[OF r] have "length r \<le> length (match_lines r1)" by simp
  moreover have "length (match_lines r1) \<le> length r1" by (rule match_lines_length)
  ultimately show ?thesis by simp
qed

subsection \<open>\<^verbatim>\<open>re.sub\<close> (line 43)\<close>

text \<open>
  The replacement of a match is a function of the matched text. \<^verbatim>\<open>re.sub\<close> takes a
  replacement string without a backslash as it is. A replacement string with a backslash
  goes through the template parser of the library first, before any matching: it processes
  escapes and group references, and it raises \<^verbatim>\<open>re.error\<close> on the ones it rejects. That
  parser is not code of this repository; the model takes it as the parameter \<open>esc\<close>.
\<close>

type_synonym template = "string \<Rightarrow> string"

type_synonym escapes = "string \<Rightarrow> py_error + template"

definition backslash :: char where
  "backslash = CHR 0x5C"

definition compile_repl :: "escapes \<Rightarrow> string \<Rightarrow> py_error + template" where
  "compile_repl esc repl = (if backslash \<in> set repl then esc repl else Inr (\<lambda>m. repl))"

text \<open>
  The scan: at each position, from the left, the pattern is tried; a match is replaced and
  the scan goes on after it, otherwise the character is kept. A match of this pattern is
  never empty.
\<close>

function sub_all :: "template \<Rightarrow> string \<Rightarrow> string" where
  "sub_all f [] = []"
| "sub_all f (c # cs) =
     (case match_block (c # cs) of
        Some rest \<Rightarrow> f (take (length (c # cs) - length rest) (c # cs)) @ sub_all f rest
      | None \<Rightarrow> c # sub_all f cs)"
  by pat_completeness auto
termination
  by (relation "measure (\<lambda>(f, s). length s)") (auto dest: match_block_shorter)

declare sub_all.simps(2) [simp del]

definition re_sub :: "escapes \<Rightarrow> string \<Rightarrow> string \<Rightarrow> py_error + string" where
  "re_sub esc repl s =
     (case compile_repl esc repl of
        Inl e \<Rightarrow> Inl e
      | Inr f \<Rightarrow> Inr (sub_all f s))"

subsection \<open>Reading and writing the target file (lines 38--39 and 46--47)\<close>

text \<open>
  \<^verbatim>\<open>open(playlist_file, 'r', encoding='utf-8')\<close> and \<^verbatim>\<open>f.read()\<close>: the file must exist, its
  bytes must be well-formed UTF-8 (the table of the Unicode standard: no overlong forms, no
  surrogates, nothing above U+10FFFF), and in text mode a carriage return, alone or before a
  line feed, is read as one line feed.
\<close>

definition byte :: "char \<Rightarrow> nat" where
  "byte c = of_char c"

definition continuation :: "char \<Rightarrow> bool" where
  "continuation c = (128 \<le> byte c \<and> byte c \<le> 191)"

fun valid_utf8 :: "string \<Rightarrow> bool" where
  "valid_utf8 [] = True"
| "valid_utf8 (a # s) =
     (if byte a < 128 then valid_utf8 s
      else if 194 \<le> byte a \<and> byte a \<le> 223 then
        (case s of
           b # t \<Rightarrow> continuation b \<and> valid_utf8 t
         | _ \<Rightarrow> False)
      else if 224 \<le> byte a \<and> byte a \<le> 239 then
        (case s of
           b # c # t \<Rightarrow>
             (if byte a = 224 then 160 \<le> byte b \<and> byte b \<le> 191
              else if byte a = 237 then 128 \<le> byte b \<and> byte b \<le> 159
              else continuation b)
             \<and> continuation c \<and> valid_utf8 t
         | _ \<Rightarrow> False)
      else if 240 \<le> byte a \<and> byte a \<le> 244 then
        (case s of
           b # c # d # t \<Rightarrow>
             (if byte a = 240 then 144 \<le> byte b \<and> byte b \<le> 191
              else if byte a = 244 then 128 \<le> byte b \<and> byte b \<le> 143
              else continuation b)
             \<and> continuation c \<and> continuation d \<and> valid_utf8 t
         | _ \<Rightarrow> False)
      else False)"

definition carriage_return :: char where
  "carriage_return = CHR 0x0D"

fun universal_newlines :: "string \<Rightarrow> string" where
  "universal_newlines [] = []"
| "universal_newlines [c] = (if c = carriage_return then [newline] else [c])"
| "universal_newlines (c # d # s) =
     (if c = carriage_return then
        (if d = newline then newline # universal_newlines s
         else newline # universal_newlines (d # s))
      else c # universal_newlines (d # s))"

definition read_text :: "string option \<Rightarrow> py_error + string" where
  "read_text file =
     (case file of
        None \<Rightarrow> Inl FileNotFoundError
      | Some raw \<Rightarrow>
          if valid_utf8 raw then Inr (universal_newlines raw) else Inl UnicodeDecodeError)"

subsection \<open>The run of the script\<close>

text \<open>
  What the script reads and changes: the entries of the audio directory, the bytes of
  \<^verbatim>\<open>PalettePlaylist.tsx\<close> (\<open>None\<close> when the file is missing), the text printed so far,
  and the number of times the file has been opened for writing. What the console does with
  the printed text is not modelled.
\<close>

record world =
  audio_dir :: "string list"
  playlist_file :: "string option"
  printed :: string
  writes :: nat

definition emit :: "string \<Rightarrow> world \<Rightarrow> world" where
  "emit line w = w\<lparr>printed := printed w @ line @ [newline]\<rparr>"

text \<open>
  \<^verbatim>\<open>open(playlist_file, 'w', encoding='utf-8')\<close> empties the file; \<^verbatim>\<open>f.write(new_content)\<close>
  encodes the whole text before it writes a byte, and raises when the text holds a name that
  is not UTF-8. On POSIX a line feed is written as it is.
\<close>

definition write_text :: "string \<Rightarrow> world \<Rightarrow> py_error option \<times> world" where
  "write_text s w =
     (let w1 = w\<lparr>playlist_file := Some [], writes := writes w + 1\<rparr>
      in if valid_utf8 s then (None, w1\<lparr>playlist_file := Some s\<rparr>)
         else (Some UnicodeEncodeError, w1))"

text \<open>Lines 21--35.\<close>

definition report_files :: "world \<Rightarrow> world" where
  "report_files w =
     (let files = audio_files (audio_dir w);
          w1 = emit (''Found '' @ str_nat (length files) @ '' audio files:'') w;
          w2 = fold (\<lambda>f. emit (''  - '' @ f)) files w1;
          w3 = emit [] w2;
          w4 = emit ''Generated set:'' w3
      in emit (set_content files) w4)"

text \<open>
  Lines 38--52. The result is the exception that ended the run, if any, and the world at
  the end.
\<close>

definition sync_audio :: "escapes \<Rightarrow> world \<Rightarrow> py_error option \<times> world" where
  "sync_audio esc w =
     (let files = audio_files (audio_dir w);
          w1 = report_files w
      in case read_text (playlist_file w1) of
           Inl e \<Rightarrow> (Some e, w1)
         | Inr content \<Rightarrow>
             (case re_sub esc (set_content files) content of
                Inl e \<Rightarrow> (Some e, w1)
              | Inr new_content \<Rightarrow>
                  if new_content \<noteq> content then
                    (case write_text new_content w1 of
                       (Some e, w2) \<Rightarrow> (Some e, w2)
                     | (None, w2) \<Rightarrow>
                         (None, emit (''Updated PalettePlaylist.tsx with ''
                                      @ str_nat (length files) @ '' audio files.'')
                                  (emit [] w2)))
                  else
                    (None, emit ''No changes needed - file already up to date.''
                             (emit [] w1))))"

subsection \<open>Notions used to state the properties of the synchronizer\<close>

text \<open>The texts the pattern matches, stated without a matcher: the opening marker, name
  lines with non-empty names free of quotes, the closing marker.\<close>

definition block_text :: "string list \<Rightarrow> string" where
  "block_text names = block_open @ concat (map name_line names) @ block_close"

definition plain_name :: "string \<Rightarrow> bool" where
  "plain_name n = (n \<noteq> [] \<and> squote \<notin> set n)"

text \<open>No match of the pattern starts at any position of the text.\<close>

definition no_match :: "string \<Rightarrow> bool" where
  "no_match s = list_all (\<lambda>k. match_block (drop k s) = None) [0..<length s]"

text \<open>No match of the pattern starts at a position of \<open>pre\<close> in the text \<open>pre @ m\<close>.\<close>

definition clear_before :: "string \<Rightarrow> string \<Rightarrow> bool" where
  "clear_before pre m = list_all (\<lambda>k. match_block (drop k (pre @ m)) = None) [0..<length pre]"

text \<open>The line of line 52.\<close>

definition no_changes_line :: string where
  "no_changes_line = ''No changes needed - file already up to date.''"

text \<open>Every place of the text where the opening marker stands either starts a match or has
  no match at or after it.\<close>

definition settled :: "string \<Rightarrow> bool" where
  "settled s =
     list_all (\<lambda>k. take (length block_open) (drop k s) \<noteq> block_open
                   \<or> match_block (drop k s) \<noteq> None \<or> no_match (drop k s))
       [0..<length s]"

text \<open>
  A template parser for the examples: it rejects what it is given. One example has a
  backslash in its replacement, before the letter q, an escape the library rejects with
  \<^verbatim>\<open>re.error\<close>.
\<close>

definition reject_escapes :: escapes where
  "reject_escapes repl = Inl ReError"

text \<open>Example data.\<close>

definition block_x :: string where
  "block_x = set_content [''x'']"

definition two_blocks :: string where
  "two_blocks = block_x @ [newline] @ block_x"

definition nested :: string where
  "nested = block_open @ ''  '' @ [squote] @ ''abc'' @ set_content [''z''] @ [squote] @ '',''
            @ [newline] @ block_close"

definition demo_dir :: "string list" where
  "demo_dir = [''b.wav'', ''notes.txt'', ''a.wav'']"

definition demo_world :: world where
  "demo_world = \<lparr>audio_dir = demo_dir,
                  playlist_file = Some (''// header'' @ [newline] @ block_x @ [newline]),
                  printed = [], writes = 0\<rparr>"

definition two_world :: world where
  "two_world = \<lparr>audio_dir = [], playlist_file = Some two_blocks, printed = [], writes = 0\<rparr>"

definition nested_world :: world where
  "nested_world = \<lparr>audio_dir = [], playlist_file = Some nested, printed = [], writes = 0\<rparr>"


text \<open>A file name that holds a quote, a line end and a whole empty block.\<close>

definition odd_name :: string where
  "odd_name = ''x'' @ [squote] @ set_content []"

definition odd_world :: world where
  "odd_world = \<lparr>audio_dir = [odd_name @ ''.wav''], playlist_file = Some (set_content []),
                 printed = [], writes = 0\<rparr>"

text \<open>A file name that holds a carriage return, and one that holds a backslash before the
  letter q.\<close>

definition cr_world :: world where
  "cr_world = \<lparr>audio_dir = [''a'' @ [carriage_return] @ ''b.wav''],
                playlist_file = Some (set_content []), printed = [], writes = 0\<rparr>"


section \<open>Properties of the batch reporter\<close>

subsection \<open>Printing\<close>

lemma stdout_print [simp]: "stdout (print l s) = stdout s @ l @ [newline]"
  and playlists_print [simp]: "playlists (print l s) = playlists s"
  by (simp_all add: print_def)


lemma fold_summary_body:
  "stdout (fold summary_body xs s) =
     stdout s @ concat (map (\<lambda>x. summary_line (fst x) (length (snd x)) ((length (snd x) + 5) div 6) @ [newline]) xs)"
  "playlists (fold summary_body xs s) = playlists s"
  by (induction xs arbitrary: s) (simp_all add: summary_body_def split: prod.splits)

lemma stdout_summary:
  "stdout (print_playlist_summary s) =
     stdout s @ summary_header
     @ concat (map (\<lambda>x. summary_line (fst x) (length (snd x)) ((length (snd x) + 5) div 6) @ [newline])
                 (summary_order (playlists s)))
     @ summary_footer"
  by (simp add: print_playlist_summary_def Let_def fold_summary_body summary_header_def
      summary_footer_def)

lemma playlists_summary: "playlists (print_playlist_summary s) = playlists s"
  by (simp add: print_playlist_summary_def Let_def fold_summary_body)


lemma stdout_summary_text:
  "stdout (print_playlist_summary s) = stdout s @ summary_text (playlists s)"
  by (simp add: summary_text_def stdout_summary)

text \<open>The decimal rendering determines the number: two counts print alike only if they are
  equal.\<close>

lemma str_nat_nonempty: "str_nat n \<noteq> []"
  by (subst str_nat.simps) simp

lemma char_of_digit_inj: "a < 10 \<Longrightarrow> b < 10 \<Longrightarrow> char_of (48 + a :: nat) = char_of (48 + b) \<Longrightarrow> a = b"
proof -
  assume a: "a < 10" and b: "b < 10" and e: "char_of (48 + a :: nat) = char_of (48 + b)"
  have "of_char (char_of (48 + a) :: char) = (48 + a :: nat)" using a by (simp add: of_char_of)
  moreover have "of_char (char_of (48 + b) :: char) = (48 + b :: nat)" using b by (simp add: of_char_of)
  ultimately show "a = b" using e by simp
qed

lemma str_nat_inj: "str_nat a = str_nat b \<Longrightarrow> a = b"
proof (induction a arbitrary: b rule: str_nat.induct)
  case (1 n)
  show ?case
  proof (cases "n < 10")
    case True
    then have sn: "str_nat n = [char_of (48 + n)]" by (subst str_nat.simps) simp
    show ?thesis
    proof (cases "b < 10")
      case True
      then have "str_nat b = [char_of (48 + b)]" by (subst str_nat.simps) simp
      with sn 1(2) have "char_of (48 + n) = (char_of (48 + b) :: char)" by simp
      with \<open>n < 10\<close> True show ?thesis by (rule char_of_digit_inj)
    next
      case False
      then have "str_nat b = str_nat (b div 10) @ [char_of (48 + b mod 10)]" by (subst str_nat.simps) simp
      with sn 1(2) have "str_nat (b div 10) = []" by simp
      then show ?thesis by (simp add: str_nat_nonempty)
    qed
  next
    case False
    then have sn: "str_nat n = str_nat (n div 10) @ [char_of (48 + n mod 10)]" by (subst str_nat.simps) simp
    show ?thesis
    proof (cases "b < 10")
      case True
      then have "str_nat b = [char_of (48 + b)]" by (subst str_nat.simps) simp
      with sn 1(2) have "str_nat (n div 10) = []" by simp
      then show ?thesis by (simp add: str_nat_nonempty)
    next
      case b: False
      then have "str_nat b = str_nat (b div 10) @ [char_of (48 + b mod 10)]" by (subst str_nat.simps) simp
      with sn 1(2) have e1: "str_nat (n div 10) = str_nat (b div 10)"
        and e2: "char_of (48 + n mod 10) = (char_of (48 + b mod 10) :: char)" by simp_all
      from 1(1)[OF False e1] have "n div 10 = b div 10" .
      moreover from e2 have "n mod 10 = b mod 10" by (intro char_of_digit_inj) simp_all
      ultimately show ?thesis by (metis div_mult_mod_eq)
    qed
  qed
qed

subsection \<open>The grouping\<close>

lemma keys_setdefault_append:
  "map fst (setdefault_append g pl v) = (if pl \<in> set (map fst g) then map fst g else map fst g @ [pl])"
  by (induction g pl v rule: setdefault_append.induct) auto

lemma map_of_setdefault_append:
  "map_of (setdefault_append g pl v) =
     (map_of g)(pl \<mapsto> (case map_of g pl of None \<Rightarrow> [] | Some vs \<Rightarrow> vs) @ [v])"
  by (induction g pl v rule: setdefault_append.induct) (auto simp: fun_eq_iff)

lemma build_playlists_snoc:
  "build_playlists (data @ [t]) = setdefault_append (build_playlists data) (get_playlist (snd t)) t"
  by (simp add: build_playlists_def group_step_def)

lemma distinct_build_playlists: "distinct (map fst (build_playlists data))"
proof (induction data rule: rev_induct)
  case Nil
  then show ?case by (simp add: build_playlists_def)
next
  case (snoc t data)
  then show ?case by (simp add: build_playlists_snoc keys_setdefault_append)
qed

lemma map_of_build_playlists:
  "map_of (build_playlists data) pl =
     (if members pl data = [] then None else Some (members pl data))"
proof (induction data arbitrary: pl rule: rev_induct)
  case Nil
  then show ?case by (simp add: build_playlists_def members_def)
next
  case (snoc t data)
  show ?case
    by (auto simp: build_playlists_snoc map_of_setdefault_append snoc members_def)
qed

lemma build_playlists_entry:
  assumes "(pl, ts) \<in> set (build_playlists data)"
  shows "ts = members pl data" "ts \<noteq> []"
proof -
  from assms have "map_of (build_playlists data) pl = Some ts"
    using distinct_build_playlists by (simp add: map_of_eq_Some_iff)
  then show "ts = members pl data" "ts \<noteq> []"
    by (auto simp: map_of_build_playlists split: if_splits)
qed

lemma build_playlists_key:
  assumes "t \<in> set data"
  shows "(get_playlist (snd t), members (get_playlist (snd t)) data) \<in> set (build_playlists data)"
proof -
  from assms have "members (get_playlist (snd t)) data \<noteq> []"
    by (auto simp: members_def filter_empty_conv)
  then have "map_of (build_playlists data) (get_playlist (snd t)) = Some (members (get_playlist (snd t)) data)"
    by (simp add: map_of_build_playlists)
  then show ?thesis by (rule map_of_SomeD)
qed

lemma playlists_load [simp]: "playlists (load data) = build_playlists data"
  by (simp add: load_def)

lemma demo_playlists:
  "build_playlists demo_data = [(''Haunted Cartridge'', hc_tracks), (''Uncategorized'', [(''p3'', loose)])]"
  by code_simp

subsection \<open>Batches\<close>

lemma range_py_6: "range_py (6 * k) n 6 = map (\<lambda>j. 6 * j) [k..<(n + 5) div 6]"
proof (induction "(n + 5) div 6 - k" arbitrary: k)
  case 0
  then have "\<not> 6 * k < n" by linarith
  then have "range_py (6 * k) n 6 = []" by (subst range_py.simps) simp
  with 0 show ?case by simp
next
  case (Suc d)
  then have lt: "6 * k < n" and k: "k < (n + 5) div 6" by linarith+
  from Suc have "d = (n + 5) div 6 - Suc k" by simp
  from Suc(1)[OF this] have "range_py (6 * Suc k) n 6 = map (\<lambda>j. 6 * j) [Suc k..<(n + 5) div 6]" .
  moreover have "range_py (6 * k) n 6 = 6 * k # range_py (6 * Suc k) n 6"
    using lt by (subst range_py.simps) (simp add: add.commute)
  ultimately show ?case using k by (simp add: upt_conv_Cons)
qed

lemma batches_explicit:
  "batches xs = map (\<lambda>j. (Suc j, slice xs (6 * j) (6 * j + 6))) [0..<(length xs + 5) div 6]"
  using range_py_6[of 0 "length xs"] by (simp add: batches_def comp_def)


lemma batches_numbers: "map fst (batches xs) = [1..<Suc (length (batches xs))]"
  by (simp add: batches_explicit comp_def map_Suc_upt)

lemma concat_slices:
  "6 * m \<le> length xs + 5 \<Longrightarrow> concat (map (\<lambda>j. slice xs (6 * j) (6 * j + 6)) [0..<m]) = take (6 * m) xs"
proof (induction m)
  case 0
  then show ?case by simp
next
  case (Suc m)
  then have "concat (map (\<lambda>j. slice xs (6 * j) (6 * j + 6)) [0..<m]) = take (6 * m) xs" by simp
  moreover have "slice xs (6 * m) (6 * m + 6) = take 6 (drop (6 * m) xs)"
    by (simp add: slice_def drop_take)
  moreover have "take (6 * m) xs @ take 6 (drop (6 * m) xs) = take (6 * m + 6) xs"
    by (simp add: take_add)
  ultimately show ?case by (simp add: add.commute)
qed

lemma concat_batches: "concat (map snd (batches xs)) = xs"
proof -
  have "concat (map snd (batches xs)) = take (6 * ((length xs + 5) div 6)) xs"
    using concat_slices[of "(length xs + 5) div 6" xs] by (simp add: batches_explicit comp_def)
  moreover have "length xs \<le> 6 * ((length xs + 5) div 6)" by presburger
  ultimately show ?thesis by simp
qed

lemma batch_sizes:
  assumes "c \<in> set (map snd (batches xs))"
  shows "0 < length c" "length c \<le> 6"
proof -
  from assms obtain j where j: "j < (length xs + 5) div 6" and c: "c = slice xs (6 * j) (6 * j + 6)"
    by (auto simp: batches_explicit)
  from j have "6 * j < length xs" by linarith
  with c show "0 < length c" "length c \<le> 6" by (simp_all add: slice_def)
qed

lemma batch_full:
  assumes "c \<in> set (butlast (map snd (batches xs)))"
  shows "length c = 6"
proof -
  let ?m = "(length xs + 5) div 6"
  have "butlast (map snd (batches xs)) = map (\<lambda>j. slice xs (6 * j) (6 * j + 6)) (butlast [0..<?m])"
    by (simp add: batches_explicit comp_def map_butlast)
  also have "butlast [0..<?m] = [0..<?m - 1]" by (cases ?m) simp_all
  finally obtain j where j: "j < ?m - 1" and c: "c = slice xs (6 * j) (6 * j + 6)"
    using assms by auto
  from j have "6 * j + 6 \<le> length xs" by linarith
  with c show ?thesis by (simp add: slice_def)
qed

lemma sum_batches: "sum_list (map (length \<circ> snd) (batches xs)) = length xs"
proof -
  have "sum_list (map (length \<circ> snd) (batches xs)) = length (concat (map snd (batches xs)))"
    by (simp add: length_concat comp_def)
  then show ?thesis by (simp add: concat_batches)
qed

lemma print_batch_known:
  "map_of (playlists s) name = Some tracks \<Longrightarrow>
   print_batch name s = fold (\<lambda>(k, c). print_chunk k c) (batches tracks) (print_banner name s)"
  by (simp add: print_batch_def batches_def fold_map comp_def batch_body_def[abs_def] Let_def)


lemma demo_batches:
  "batches hc_tracks = [(1, take 6 hc_tracks), (2, drop 6 hc_tracks)]"
  by (simp add: batches_explicit hc_tracks_def slice_def upt_rec)

subsection \<open>Orders of iteration\<close>

lemma insort_key_map:
  "insort_key f (h x) (map h xs) = map h (insort_key (\<lambda>a. f (h a)) x xs)"
  by (induction xs) simp_all

lemma sort_key_map: "sort_key f (map h xs) = map h (sort_key (\<lambda>a. f (h a)) xs)"
  by (induction xs) (simp_all add: insort_key_map)

lemma all_key_entry:
  assumes "distinct (map fst g)" "x \<in> set g"
  shows "all_key g (fst x) = Inr (- int (length (snd x)))"
proof -
  from assms have "map_of g (fst x) = Some (snd x)" by (cases x) simp
  then show ?thesis by (simp add: all_key_def getitem_def)
qed

lemma compute_keys_all:
  assumes "distinct (map fst g)" "set xs \<subseteq> set g"
  shows "compute_keys (all_key g) (map fst xs) = Inr (map (\<lambda>x. (- int (length (snd x)), fst x)) xs)"
  using assms(2) by (induction xs) (simp_all add: all_key_entry[OF assms(1)])

lemma all_order_distinct:
  assumes "distinct (map fst g)"
  shows "all_order g = Inr (map fst (summary_order g))"
proof -
  have "compute_keys (all_key g) (map fst g) = Inr (map (\<lambda>x. (- int (length (snd x)), fst x)) g)"
    using assms by (rule compute_keys_all) simp
  then show ?thesis
    by (simp add: all_order_def sorted_py_def sort_key_map comp_def summary_order_def)
qed

lemma summary_order_descending:
  "sorted_wrt (\<lambda>x y. length (snd y) \<le> length (snd x)) (summary_order g)"
proof -
  have "sorted (map (\<lambda>x. - int (length (snd x))) (summary_order g))"
    unfolding summary_order_def by (rule sorted_sort_key)
  then show ?thesis by (simp add: sorted_map)
qed

lemma summary_order_stable:
  "filter (\<lambda>x. length (snd x) = k) (summary_order g) = filter (\<lambda>x. length (snd x) = k) g"
proof -
  have "filter (\<lambda>x. - int (length (snd x)) = - int k) (summary_order g)
      = filter (\<lambda>x. - int (length (snd x)) = - int k) g"
    unfolding summary_order_def by (rule sort_key_stable)
  then show ?thesis by simp
qed

text \<open>The summary of the example: eight tracks make two batches.\<close>

lemma demo_summary_text:
  "summary_text (build_playlists demo_data) =
     replicate 60 (CHR ''='') @ [newline] @ ''AVAILABLE PLAYLISTS'' @ [newline]
     @ replicate 60 (CHR ''='') @ [newline]
     @ ''  Haunted Cartridge: 8 tracks (2 batches)'' @ [newline]
     @ ''  Uncategorized: 1 tracks (1 batches)'' @ [newline]
     @ [newline] @ ''Usage: python scripts/lyria-batches.py '' @ [dquote]
     @ ''Playlist Name'' @ [dquote] @ [newline]"
  by code_simp

section \<open>Claims about the batch reporter\<close>


text \<open>
  Claim C2. For a known playlist name, \<^verbatim>\<open>print_batch\<close> prints the banner and then one batch
  per chunk of the group's stored track list. The chunks are numbered 1, 2, ...; every chunk
  has between 1 and 6 tracks and every chunk but the last has exactly 6; the sizes add up to
  the track count; and the chunks, concatenated in order, are the stored list.
\<close>

theorem report_chunks:
  assumes "map_of (playlists s) name = Some tracks"
  shows "print_batch name s
           = fold (\<lambda>(k, c). print_chunk k c) (batches tracks) (print_banner name s)
    \<and> map fst (batches tracks) = [1..<Suc (length (batches tracks))]
    \<and> (\<forall>c \<in> set (map snd (batches tracks)). 0 < length c \<and> length c \<le> 6)
    \<and> (\<forall>c \<in> set (butlast (map snd (batches tracks))). length c = 6)
    \<and> sum_list (map (length \<circ> snd) (batches tracks)) = length tracks
    \<and> concat (map snd (batches tracks)) = tracks"
proof (intro conjI ballI)
  show "print_batch name s
          = fold (\<lambda>(k, c). print_chunk k c) (batches tracks) (print_banner name s)"
    using assms by (rule print_batch_known)
  show "map fst (batches tracks) = [1..<Suc (length (batches tracks))]"
    by (rule batches_numbers)
  show "sum_list (map (length \<circ> snd) (batches tracks)) = length tracks"
    by (rule sum_batches)
  show "concat (map snd (batches tracks)) = tracks"
    by (rule concat_batches)
next
  fix c assume "c \<in> set (map snd (batches tracks))"
  then show "0 < length c" "length c \<le> 6" by (rule batch_sizes)+
next
  fix c assume "c \<in> set (butlast (map snd (batches tracks)))"
  then show "length c = 6" by (rule batch_full)
qed

theorem report_chunks_witness:
  "map_of (playlists (load demo_data)) ''Haunted Cartridge'' = Some hc_tracks
   \<and> batches hc_tracks = [(1, take 6 hc_tracks), (2, drop 6 hc_tracks)]
   \<and> print_batch ''Haunted Cartridge'' (load demo_data)
        = fold (\<lambda>(k, c). print_chunk k c) (batches hc_tracks)
            (print_banner ''Haunted Cartridge'' (load demo_data))
   \<and> map fst (batches hc_tracks) = [1..<Suc (length (batches hc_tracks))]
   \<and> drop 6 hc_tracks \<in> set (map snd (batches hc_tracks))
   \<and> 0 < length (drop 6 hc_tracks) \<and> length (drop 6 hc_tracks) \<le> 6
   \<and> take 6 hc_tracks \<in> set (butlast (map snd (batches hc_tracks)))
   \<and> length (take 6 hc_tracks) = 6
   \<and> sum_list (map (length \<circ> snd) (batches hc_tracks)) = length hc_tracks
   \<and> concat (map snd (batches hc_tracks)) = hc_tracks"
proof -
  have h: "map_of (playlists (load demo_data)) ''Haunted Cartridge'' = Some hc_tracks"
    by (simp add: demo_playlists)
  have m1: "drop 6 hc_tracks \<in> set (map snd (batches hc_tracks))"
    and m2: "take 6 hc_tracks \<in> set (butlast (map snd (batches hc_tracks)))"
    by (simp_all add: demo_batches)
  note r = report_chunks[OF h]
  note r1 = r[THEN conjunct1]
  note r2 = r[THEN conjunct2, THEN conjunct1]
  note r3 = r[THEN conjunct2, THEN conjunct2, THEN conjunct1, THEN bspec, OF m1]
  note r4 = r[THEN conjunct2, THEN conjunct2, THEN conjunct2, THEN conjunct1, THEN bspec, OF m2]
  note r5 = r[THEN conjunct2, THEN conjunct2, THEN conjunct2, THEN conjunct2]
  show ?thesis
    by (rule conjI[OF h conjI[OF demo_batches conjI[OF r1 conjI[OF r2 conjI[OF m1
       conjI[OF r3[THEN conjunct1] conjI[OF r3[THEN conjunct2] conjI[OF m2 conjI[OF r4 r5]]]]]]]]])
qed

text \<open>
  Claim C6. The grouping is a partition of the loaded records. Its keys are distinct; the
  list stored under a key is exactly the records of the loaded mapping whose playlist value
  (``Uncategorized'' when the field is absent) is that key, in the mapping's order; so a
  record of the mapping is in the group of its playlist value and in no other group, and
  that group exists.
\<close>

theorem grouping_partition:
  "distinct (map fst (build_playlists data))
   \<and> (\<forall>(pl, ts) \<in> set (build_playlists data).
        ts = filter (\<lambda>t. get_playlist (snd t) = pl) data)
   \<and> (\<forall>t \<in> set data. \<forall>(pl, ts) \<in> set (build_playlists data).
        (t \<in> set ts) = (pl = get_playlist (snd t)))
   \<and> (\<forall>t \<in> set data. get_playlist (snd t) \<in> fst ` set (build_playlists data))"
proof (intro conjI ballI)
  show "distinct (map fst (build_playlists data))" by (rule distinct_build_playlists)
next
  fix x assume "x \<in> set (build_playlists data)"
  obtain pl ts where x: "x = (pl, ts)" by (cases x)
  with \<open>x \<in> set (build_playlists data)\<close> have "(pl, ts) \<in> set (build_playlists data)" by simp
  then have "ts = members pl data" by (rule build_playlists_entry(1))
  with x show "case x of (pl, ts) \<Rightarrow> ts = filter (\<lambda>t. get_playlist (snd t) = pl) data"
    by (simp add: members_def)
next
  fix t x assume t: "t \<in> set data" and x: "x \<in> set (build_playlists data)"
  obtain pl ts where xp: "x = (pl, ts)" by (cases x)
  with x have "(pl, ts) \<in> set (build_playlists data)" by simp
  then have "ts = members pl data" by (rule build_playlists_entry(1))
  with t xp show "case x of (pl, ts) \<Rightarrow> (t \<in> set ts) = (pl = get_playlist (snd t))"
    by (auto simp: members_def)
next
  fix t assume "t \<in> set data"
  from build_playlists_key[OF this] show "get_playlist (snd t) \<in> fst ` set (build_playlists data)"
    by force
qed

theorem grouping_partition_witness:
  "(''p3'', loose) \<in> set demo_data
   \<and> (''Uncategorized'', [(''p3'', loose)]) \<in> set (build_playlists demo_data)
   \<and> get_playlist (snd (''p3'', loose)) = ''Uncategorized''
   \<and> [(''p3'', loose)] = filter (\<lambda>t. get_playlist (snd t) = ''Uncategorized'') demo_data
   \<and> ((''p3'', loose) \<in> set [(''p3'', loose)])
       = (''Uncategorized'' = get_playlist (snd (''p3'', loose)))
   \<and> get_playlist (snd (''p3'', loose)) \<in> fst ` set (build_playlists demo_data)"
proof -
  note gp = grouping_partition[of demo_data]
  have a: "(''p3'', loose) \<in> set demo_data" by (simp add: demo_data_def)
  have b: "(''Uncategorized'', [(''p3'', loose)]) \<in> set (build_playlists demo_data)"
    by (simp add: demo_playlists)
  have d: "get_playlist (snd (''p3'', loose)) = ''Uncategorized''"
    by (simp add: get_playlist_def loose_def)
  from gp have g2: "\<forall>(pl, ts) \<in> set (build_playlists demo_data).
        ts = filter (\<lambda>t. get_playlist (snd t) = pl) demo_data"
    and g3: "\<forall>t \<in> set demo_data. \<forall>(pl, ts) \<in> set (build_playlists demo_data).
        (t \<in> set ts) = (pl = get_playlist (snd t))"
    and g4: "\<forall>t \<in> set demo_data. get_playlist (snd t) \<in> fst ` set (build_playlists demo_data)"
    by (rule conjunct1[OF conjunct2], rule conjunct1[OF conjunct2[OF conjunct2]],
        rule conjunct2[OF conjunct2[OF conjunct2]])
  from bspec[OF g2 b]
  have e: "[(''p3'', loose)] = filter (\<lambda>t. get_playlist (snd t) = ''Uncategorized'') demo_data"
    by (simp only: prod.case)
  from bspec[OF bspec[OF g3 a] b]
  have f: "((''p3'', loose) \<in> set [(''p3'', loose)])
       = (''Uncategorized'' = get_playlist (snd (''p3'', loose)))"
    by (simp only: prod.case)
  note g = bspec[OF g4 a]
  show ?thesis by (rule conjI[OF a conjI[OF b conjI[OF d conjI[OF e conjI[OF f g]]]]])
qed

text \<open>
  Claim C8. For a name that is not a key of the grouping, \<^verbatim>\<open>print_batch\<close> is the summary
  run after the ``not found'' line: what it writes is that line followed by exactly the text
  the summary writes, and the grouping is the same afterwards. The function returns a state,
  it has no error result.
\<close>

theorem report_unknown:
  assumes "name \<notin> fst ` set (playlists s)"
  shows "print_batch name s = print_playlist_summary (print (not_found_message name) s)
    \<and> stdout (print_batch name s)
        = stdout s @ not_found_message name @ [newline] @ summary_text (playlists s)
    \<and> stdout (print_playlist_summary s) = stdout s @ summary_text (playlists s)
    \<and> playlists (print_batch name s) = playlists s"
proof -
  from assms have "map_of (playlists s) name = None" by (simp add: map_of_eq_None_iff)
  then have "print_batch name s = print_playlist_summary (print (not_found_message name) s)"
    by (simp add: print_batch_def not_found_message_def)
  then show ?thesis by (simp add: stdout_summary_text playlists_summary)
qed

theorem report_unknown_witness:
  "''Nope'' \<notin> fst ` set (playlists (load demo_data))
   \<and> (print_batch ''Nope'' (load demo_data)
        = print_playlist_summary (print (not_found_message ''Nope'') (load demo_data))
      \<and> stdout (print_batch ''Nope'' (load demo_data))
          = stdout (load demo_data) @ not_found_message ''Nope'' @ [newline]
            @ summary_text (playlists (load demo_data))
      \<and> stdout (print_playlist_summary (load demo_data))
          = stdout (load demo_data) @ summary_text (playlists (load demo_data))
      \<and> playlists (print_batch ''Nope'' (load demo_data)) = playlists (load demo_data))"
proof -
  have h: "''Nope'' \<notin> fst ` set (playlists (load demo_data))" by (simp add: demo_playlists)
  show ?thesis by (rule conjI[OF h report_unknown[OF h]])
qed

text \<open>
  Claim C9. On the grouping of any loaded mapping, the key function of \<^verbatim>\<open>print_all_batches\<close>
  raises no \<^verbatim>\<open>KeyError\<close>, and the names it processes are, in order, the names of the groups
  in the order of the summary. That order is descending in the track count, and groups with
  the same count keep the order they have in the grouping.
\<close>

theorem report_all_order:
  "all_order (playlists (load data)) = Inr (map fst (summary_order (playlists (load data))))
   \<and> print_all_batches (load data)
       = Inr (fold print_batch (map fst (summary_order (playlists (load data)))) (load data))
   \<and> sorted_wrt (\<lambda>x y. length (snd y) \<le> length (snd x)) (summary_order (playlists (load data)))
   \<and> filter (\<lambda>x. length (snd x) = k) (summary_order (playlists (load data)))
       = filter (\<lambda>x. length (snd x) = k) (playlists (load data))"
  by (simp add: print_all_batches_def all_order_distinct distinct_build_playlists
      summary_order_descending summary_order_stable)



section \<open>Properties of the synchronizer\<close>

subsection \<open>Stems of the matching entries\<close>

lemma rfind_absent: "c \<notin> set ys \<Longrightarrow> rfind c ys = - 1"
  by (induction ys) (auto simp: Let_def)

lemma rfind_last: "c \<notin> set ys \<Longrightarrow> rfind c (xs @ c # ys) = int (length xs)"
  by (induction xs) (simp_all add: Let_def rfind_absent)

lemma glob_wav_iff: "glob_wav name \<longleftrightarrow> (\<exists>p. name = p @ ''.wav'')"
proof
  assume "glob_wav name"
  then have "name = take (length name - 4) name @ ''.wav''"
    by (metis append_take_drop_id glob_wav_def)
  then show "\<exists>p. name = p @ ''.wav''" ..
next
  assume "\<exists>p. name = p @ ''.wav''"
  then obtain p where "name = p @ ''.wav''" ..
  then show "glob_wav name" by (simp add: glob_wav_def)
qed

lemma stem_wav_nonempty: "p \<noteq> [] \<Longrightarrow> stem (p @ ''.wav'') = p"
proof -
  assume p: "p \<noteq> []"
  have "rfind (CHR ''.'') (p @ CHR ''.'' # ''wav'') = int (length p)"
    by (rule rfind_last) simp
  with p show ?thesis by (simp add: stem_def Let_def)
qed

lemma stem_dot_wav: "stem ''.wav'' = ''.wav''"
  by (simp add: stem_def Let_def)

lemma stem_glob:
  assumes "glob_wav name"
  shows "if name = ''.wav'' then stem name = ''.wav'' else stem name @ ''.wav'' = name"
proof -
  from assms obtain p where n: "name = p @ ''.wav''" unfolding glob_wav_iff ..
  show ?thesis
  proof (cases "p = []")
    case True
    with n have "name = ''.wav''" by simp
    then show ?thesis by (simp add: stem_dot_wav)
  next
    case False
    then have "stem name = p" unfolding n by (rule stem_wav_nonempty)
    moreover from False n have "name \<noteq> ''.wav''" by simp
    ultimately show ?thesis using n by (simp only: if_False)
  qed
qed

lemma stem_nonempty: "glob_wav name \<Longrightarrow> stem name \<noteq> []"
proof -
  assume g: "glob_wav name"
  show ?thesis
  proof (cases "name = ''.wav''")
    case True
    then show ?thesis by (simp only: stem_dot_wav) simp
  next
    case False
    with stem_glob[OF g] have e: "stem name @ ''.wav'' = name" by (simp only: if_False)
    show ?thesis
    proof
      assume "stem name = []"
      with e have "name = ''.wav''" by simp
      with False show False ..
    qed
  qed
qed

lemma distinct_audio_files:
  assumes "distinct listing" "''.wav'' \<notin> set listing"
  shows "distinct (audio_files listing)"
proof -
  have r: "stem a @ ''.wav'' = a" if "a \<in> set (filter glob_wav listing)" for a
  proof -
    from that have g: "glob_wav a" and "a \<in> set listing" by simp_all
    with assms(2) have "a \<noteq> ''.wav''" by blast
    with stem_glob[OF g] show ?thesis by (simp only: if_False)
  qed
  have "inj_on stem (set (filter glob_wav listing))"
  proof (rule inj_onI)
    fix a b assume a: "a \<in> set (filter glob_wav listing)" and b: "b \<in> set (filter glob_wav listing)"
      and e: "stem a = stem b"
    from r[OF a] r[OF b] e show "a = b" by metis
  qed
  with assms(1) have "distinct (map stem (filter glob_wav listing))"
    by (simp add: distinct_map)
  then show ?thesis by (simp add: audio_files_def)
qed

lemma audio_files_nonempty: "n \<in> set (audio_files listing) \<Longrightarrow> n \<noteq> []"
proof -
  assume "n \<in> set (audio_files listing)"
  then obtain name where "glob_wav name" "n = stem name" by (auto simp: audio_files_def)
  then show ?thesis by (simp add: stem_nonempty)
qed

subsection \<open>The matcher against the texts of the pattern\<close>

lemma literal_append: "literal p (p @ r) = Some r"
  by (induction p) simp_all

lemma literal_iff: "literal p s = Some r \<longleftrightarrow> s = p @ r"
  using literal_Some literal_append by blast

lemma match_line_name_line:
  assumes "plain_name n"
  shows "match_line (name_line n @ r) = Some r"
proof -
  let ?rest = "[squote] @ '','' @ [newline] @ r"
  from assms have n: "n \<noteq> []" and q: "\<And>x. x \<in> set n \<Longrightarrow> x \<noteq> squote"
    by (auto simp: plain_name_def)
  have l: "literal (''  '' @ [squote]) (name_line n @ r) = Some (n @ ?rest)"
    unfolding literal_iff by (simp add: name_line_def)
  have t: "takeWhile (\<lambda>c. c \<noteq> squote) (n @ ?rest) = n"
    using q by (simp add: takeWhile_append2)
  have d: "dropWhile (\<lambda>c. c \<noteq> squote) (n @ ?rest) = ?rest"
    using q by (simp add: dropWhile_append2)
  have "literal ([squote] @ '','' @ [newline]) ?rest = Some r"
    unfolding literal_iff by simp
  with l t d n show ?thesis by (simp add: match_line_def)
qed

lemma match_line_Some:
  assumes "match_line s = Some r"
  shows "\<exists>n. plain_name n \<and> s = name_line n @ r"
proof -
  from assms obtain r1 where r1: "literal (''  '' @ [squote]) s = Some r1"
    and ne: "takeWhile (\<lambda>c. c \<noteq> squote) r1 \<noteq> []"
    and r: "literal ([squote] @ '','' @ [newline]) (dropWhile (\<lambda>c. c \<noteq> squote) r1) = Some r"
    by (auto simp: match_line_def split: option.splits if_splits)
  let ?n = "takeWhile (\<lambda>c. c \<noteq> squote) r1"
  have "squote \<notin> set ?n" using set_takeWhileD by fastforce
  with ne have "plain_name ?n" by (simp add: plain_name_def)
  moreover have "r1 = ?n @ dropWhile (\<lambda>c. c \<noteq> squote) r1" by simp
  with literal_Some[OF r1] literal_Some[OF r]
  have "s = name_line ?n @ r" by (simp add: name_line_def)
  ultimately show ?thesis by blast
qed

lemma match_line_close: "match_line (block_close @ r) = None"
  by (simp add: match_line_def block_close_def)

lemma match_lines_block:
  "list_all plain_name names \<Longrightarrow>
   match_lines (concat (map name_line names) @ block_close @ r) = block_close @ r"
proof (induction names)
  case Nil
  show ?case by (subst match_lines.simps) (simp add: match_line_close)
next
  case (Cons n names)
  then have "match_line (name_line n @ concat (map name_line names) @ block_close @ r)
      = Some (concat (map name_line names) @ block_close @ r)"
    by (simp add: match_line_name_line)
  with Cons show ?case by (subst match_lines.simps) simp
qed

lemma match_lines_decomp:
  "\<exists>names. list_all plain_name names \<and> s = concat (map name_line names) @ match_lines s"
proof (induction s rule: match_lines.induct)
  case (1 s)
  show ?case
  proof (cases "match_line s")
    case None
    then have "match_lines s = s" by (subst match_lines.simps) simp
    then have "list_all plain_name [] \<and> s = concat (map name_line []) @ match_lines s" by simp
    then show ?thesis ..
  next
    case (Some r)
    then obtain n where n: "plain_name n" "s = name_line n @ r" using match_line_Some by blast
    from 1[OF Some] obtain names where names: "list_all plain_name names"
      "r = concat (map name_line names) @ match_lines r" by blast
    from Some have "match_lines s = match_lines r" by (subst match_lines.simps) simp
    with n names have "list_all plain_name (n # names)
        \<and> s = concat (map name_line (n # names)) @ match_lines s" by simp
    then show ?thesis ..
  qed
qed

lemma match_block_block_text:
  "list_all plain_name names \<Longrightarrow> match_block (block_text names @ r) = Some r"
  by (simp add: match_block_def block_text_def literal_append match_lines_block)

lemma match_block_Some:
  assumes "match_block s = Some r"
  shows "\<exists>names. list_all plain_name names \<and> s = block_text names @ r"
proof -
  from assms obtain r1 where r1: "literal block_open s = Some r1"
    and r: "literal block_close (match_lines r1) = Some r"
    by (auto simp: match_block_def split: option.splits)
  obtain names where names: "list_all plain_name names"
    "r1 = concat (map name_line names) @ match_lines r1" using match_lines_decomp by blast
  from literal_Some[OF r1] literal_Some[OF r] names(2)
  have "s = block_text names @ r" by (simp add: block_text_def)
  with names(1) show ?thesis by blast
qed

text \<open>The matcher accepts exactly the texts of the pattern, and the rest it returns is the
  only one: a backtracking search of the pattern finds the same match.\<close>

lemma match_block_iff:
  "match_block s = Some r \<longleftrightarrow> (\<exists>names. list_all plain_name names \<and> s = block_text names @ r)"
  using match_block_Some match_block_block_text by blast

lemma foldl_name_line:
  "foldl (\<lambda>acc f. acc @ name_line f) a names = a @ concat (map name_line names)"
  by (induction names arbitrary: a) simp_all

lemma set_content_block_text: "set_content names = block_text names"
  by (simp add: set_content_def block_text_def foldl_name_line)

lemma block_text_open: "block_text names = block_open @ concat (map name_line names) @ block_close"
  by (simp add: block_text_def)

lemma block_open_nonempty: "block_open \<noteq> []"
  by (simp add: block_open_def)

lemma match_block_open:
  "match_block s = Some r \<Longrightarrow> take (length block_open) s = block_open"
  by (auto simp: match_block_def literal_iff split: option.splits)

subsection \<open>The scan\<close>

lemma no_match_iff: "no_match s \<longleftrightarrow> (\<forall>k<length s. match_block (drop k s) = None)"
  by (auto simp: no_match_def list_all_iff)

lemma settled_iff:
  "settled s \<longleftrightarrow>
     (\<forall>k<length s. take (length block_open) (drop k s) = block_open \<longrightarrow>
        match_block (drop k s) = None \<longrightarrow> no_match (drop k s))"
  by (auto simp: settled_def list_all_iff)

lemma sub_all_first:
  assumes "\<forall>k<length pre. match_block (drop k (pre @ m)) = None" "match_block m = Some post"
  shows "sub_all f (pre @ m) = pre @ f (take (length m - length post) m) @ sub_all f post"
  using assms(1)
proof (induction pre)
  case Nil
  from assms(2) have "m \<noteq> []" by (auto dest: match_block_shorter)
  then obtain c cs where "m = c # cs" by (cases m) auto
  with assms(2) show ?case by (simp add: sub_all.simps(2))
next
  case (Cons c pre)
  from Cons(2) have "match_block (drop 0 ((c # pre) @ m)) = None" by blast
  then have n: "match_block (c # pre @ m) = None" by simp
  have "\<forall>k<length pre. match_block (drop k (pre @ m)) = None"
  proof (intro allI impI)
    fix k assume "k < length pre"
    then have "Suc k < length (c # pre)" by simp
    with Cons(2) have "match_block (drop (Suc k) ((c # pre) @ m)) = None" by blast
    then show "match_block (drop k (pre @ m)) = None" by simp
  qed
  with Cons(1) have "sub_all f (pre @ m) = pre @ f (take (length m - length post) m) @ sub_all f post"
    by blast
  with n show ?case by (simp add: sub_all.simps(2))
qed

lemma sub_all_no_match: "no_match s \<Longrightarrow> sub_all f s = s"
proof (induction s)
  case Nil
  show ?case by simp
next
  case (Cons c cs)
  from Cons(2) have a: "\<forall>k<length (c # cs). match_block (drop k (c # cs)) = None"
    by (simp only: no_match_iff)
  then have "match_block (drop 0 (c # cs)) = None" by blast
  then have n: "match_block (c # cs) = None" by simp
  have "\<forall>k<length cs. match_block (drop k cs) = None"
  proof (intro allI impI)
    fix k assume "k < length cs"
    then have "Suc k < length (c # cs)" by simp
    with a have "match_block (drop (Suc k) (c # cs)) = None" by blast
    then show "match_block (drop k cs) = None" by simp
  qed
  then have "no_match cs" by (simp only: no_match_iff)
  with Cons(1) have "sub_all f cs = cs" by blast
  with n show ?case by (simp add: sub_all.simps(2))
qed

lemma settled_suffix:
  assumes "settled (xs @ ys)"
  shows "settled ys"
  unfolding settled_iff
proof (intro allI impI)
  fix k assume k: "k < length ys" and t: "take (length block_open) (drop k ys) = block_open"
    and m: "match_block (drop k ys) = None"
  have d: "drop (length xs + k) (xs @ ys) = drop k ys" by simp
  from k have "length xs + k < length (xs @ ys)" by simp
  with assms t m d show "no_match (drop k ys)"
    unfolding settled_iff by metis
qed

lemma sub_all_take_open:
  "n \<le> length block_open \<Longrightarrow> take n (sub_all (\<lambda>m. block_open @ X) s) = take n s"
proof (induction "\<lambda>m :: string. block_open @ X" s arbitrary: n rule: sub_all.induct)
  case 1
  show ?case by simp
next
  case (2 c cs)
  show ?case
  proof (cases "match_block (c # cs)")
    case None
    show ?thesis
    proof (cases n)
      case 0
      then show ?thesis by simp
    next
      case (Suc j)
      with 2(3) have "j \<le> length block_open" by simp
      from 2(1)[OF None this] Suc None show ?thesis by (simp add: sub_all.simps(2))
    qed
  next
    case (Some rest)
    then have "take (length block_open) (c # cs) = block_open" by (rule match_block_open)
    then have "take n (take (length block_open) (c # cs)) = take n block_open" by simp
    with 2(3) have "take n (c # cs) = take n block_open" by (simp add: min_absorb2)
    moreover from Some 2(3)
    have "take n (sub_all (\<lambda>m. block_open @ X) (c # cs)) = take n block_open"
      by (simp add: sub_all.simps(2))
    ultimately show ?thesis by simp
  qed
qed

lemma sub_all_self:
  assumes "\<And>r. match_block (B @ r) = Some r"
  shows "sub_all (\<lambda>m. B) (B @ t) = B @ sub_all (\<lambda>m. B) t"
proof -
  from assms[of t] have "length t < length (B @ t)" by (rule match_block_shorter)
  then obtain c cs where c: "B @ t = c # cs" by (cases "B @ t") auto
  have "sub_all (\<lambda>m. B) (c # cs) = B @ sub_all (\<lambda>m. B) t"
    using assms[of t] unfolding c by (simp add: sub_all.simps(2))
  with c show ?thesis by simp
qed

text \<open>A second scan with a replacement that matches the pattern itself changes nothing, when
  every opening marker of the text either started a match or had no match after it.\<close>

lemma sub_all_idem:
  assumes self: "\<And>r. match_block (block_open @ X @ r) = Some r"
  shows "settled s \<Longrightarrow>
    sub_all (\<lambda>m. block_open @ X) (sub_all (\<lambda>m. block_open @ X) s)
      = sub_all (\<lambda>m. block_open @ X) s"
proof (induction "\<lambda>m :: string. block_open @ X" s rule: sub_all.induct)
  case 1
  show ?case by simp
next
  case (2 c cs)
  let ?f = "\<lambda>m :: string. block_open @ X"
  have self': "\<And>r. match_block ((block_open @ X) @ r) = Some r" using self by simp
  show ?case
  proof (cases "match_block (c # cs)")
    case (Some rest)
    then obtain names where "c # cs = block_text names @ rest" using match_block_Some by blast
    with 2(3) have "settled rest" using settled_suffix by metis
    with 2(2)[OF Some] have ih: "sub_all ?f (sub_all ?f rest) = sub_all ?f rest" by blast
    from Some have "sub_all ?f (c # cs) = (block_open @ X) @ sub_all ?f rest"
      by (simp add: sub_all.simps(2))
    with sub_all_self[of "block_open @ X", OF self'] ih show ?thesis by simp
  next
    case None
    show ?thesis
    proof (cases "take (length block_open) (c # cs) = block_open")
      case True
      from 2(3) have "take (length block_open) (drop 0 (c # cs)) = block_open \<longrightarrow>
          match_block (drop 0 (c # cs)) = None \<longrightarrow> no_match (drop 0 (c # cs))"
        unfolding settled_iff by blast
      with True None have "no_match (c # cs)" by simp
      then have "sub_all ?f (c # cs) = c # cs" by (rule sub_all_no_match)
      then show ?thesis by simp
    next
      case nt: False
      have "c # cs = [c] @ cs" by simp
      with 2(3) have "settled cs" using settled_suffix by metis
      with 2(1)[OF None] have ih: "sub_all ?f (sub_all ?f cs) = sub_all ?f cs" by blast
      from None have e: "sub_all ?f (c # cs) = c # sub_all ?f cs" by (simp add: sub_all.simps(2))
      have "take (length block_open) (c # sub_all ?f cs) = take (length block_open) (c # cs)"
      proof (cases "length block_open")
        case 0
        then show ?thesis by simp
      next
        case (Suc j)
        then have "j \<le> length block_open" by simp
        from sub_all_take_open[OF this, of X cs] Suc show ?thesis by simp
      qed
      with nt have "take (length block_open) (c # sub_all ?f cs) \<noteq> block_open" by simp
      then have "match_block (c # sub_all ?f cs) = None"
        using match_block_open by (cases "match_block (c # sub_all ?f cs)") auto
      then have "sub_all ?f (c # sub_all ?f cs) = c # sub_all ?f (sub_all ?f cs)"
        by (simp add: sub_all.simps(2))
      with e ih show ?thesis by simp
    qed
  qed
qed

lemma set_sub_all: "set (sub_all (\<lambda>m. B) s) \<subseteq> set B \<union> set s"
proof (induction "\<lambda>m :: string. B" s rule: sub_all.induct)
  case 1
  show ?case by simp
next
  case (2 c cs)
  show ?case
  proof (cases "match_block (c # cs)")
    case None
    with 2(1)[OF None] show ?thesis by (auto simp: sub_all.simps(2))
  next
    case (Some rest)
    then obtain names where e: "c # cs = block_text names @ rest" using match_block_Some by blast
    then have "set rest \<subseteq> set (c # cs)" by (metis set_append sup_ge2)
    with 2(2)[OF Some] Some show ?thesis by (auto simp: sub_all.simps(2))
  qed
qed

lemma clear_before_iff:
  "clear_before pre m \<longleftrightarrow> (\<forall>k<length pre. match_block (drop k (pre @ m)) = None)"
  by (auto simp: clear_before_def list_all_iff)

subsection \<open>Reading the file\<close>

lemma universal_newlines_id: "carriage_return \<notin> set s \<Longrightarrow> universal_newlines s = s"
  by (induction s rule: universal_newlines.induct) auto

lemma universal_newlines_no_cr: "carriage_return \<notin> set (universal_newlines s)"
  by (induction s rule: universal_newlines.induct)
     (auto simp: carriage_return_def newline_def)

lemma cr_set_content:
  assumes "\<forall>n \<in> set names. carriage_return \<notin> set n"
  shows "carriage_return \<notin> set (set_content names)"
proof -
  have "carriage_return \<notin> set block_open" "carriage_return \<notin> set block_close"
    by (simp_all add: block_open_def block_close_def carriage_return_def newline_def)
  moreover from assms have "\<forall>n \<in> set names. carriage_return \<notin> set (name_line n)"
    by (simp add: name_line_def carriage_return_def squote_def newline_def)
  ultimately show ?thesis by (simp add: set_content_block_text block_text_def)
qed

lemma read_text_empty: "read_text (Some []) = Inr []"
  by (simp add: read_text_def)

lemma read_text_written:
  "valid_utf8 s \<Longrightarrow> carriage_return \<notin> set s \<Longrightarrow> read_text (Some s) = Inr s"
  by (simp add: read_text_def universal_newlines_id)

lemma read_text_no_cr: "read_text file = Inr content \<Longrightarrow> carriage_return \<notin> set content"
  by (auto simp: read_text_def universal_newlines_no_cr split: option.splits if_splits)

subsection \<open>The run\<close>

lemma emit_fields [simp]:
  "audio_dir (emit l w) = audio_dir w"
  "playlist_file (emit l w) = playlist_file w"
  "writes (emit l w) = writes w"
  "printed (emit l w) = printed w @ l @ [newline]"
  by (simp_all add: emit_def)

lemma fold_emit_fields [simp]:
  "audio_dir (fold (\<lambda>f. emit (g f)) fs w) = audio_dir w"
  "playlist_file (fold (\<lambda>f. emit (g f)) fs w) = playlist_file w"
  "writes (fold (\<lambda>f. emit (g f)) fs w) = writes w"
  by (induction fs arbitrary: w) simp_all

lemma report_files_fields [simp]:
  "audio_dir (report_files w) = audio_dir w"
  "playlist_file (report_files w) = playlist_file w"
  "writes (report_files w) = writes w"
  by (simp_all add: report_files_def Let_def)



lemma sync_audio_changed:
  "read_text (playlist_file w) = Inr content \<Longrightarrow>
   compile_repl esc (set_content (audio_files (audio_dir w))) = Inr f \<Longrightarrow>
   sub_all f content \<noteq> content \<Longrightarrow>
   valid_utf8 (sub_all f content) \<Longrightarrow>
   sync_audio esc w =
     (None, emit (''Updated PalettePlaylist.tsx with ''
                  @ str_nat (length (audio_files (audio_dir w))) @ '' audio files.'')
              (emit [] ((report_files w)\<lparr>playlist_file := Some (sub_all f content),
                                         writes := writes w + 1\<rparr>)))"
  by (simp add: sync_audio_def Let_def re_sub_def write_text_def)

lemma sync_audio_unencodable:
  "read_text (playlist_file w) = Inr content \<Longrightarrow>
   compile_repl esc (set_content (audio_files (audio_dir w))) = Inr f \<Longrightarrow>
   sub_all f content \<noteq> content \<Longrightarrow>
   \<not> valid_utf8 (sub_all f content) \<Longrightarrow>
   sync_audio esc w =
     (Some UnicodeEncodeError,
      (report_files w)\<lparr>playlist_file := Some [], writes := writes w + 1\<rparr>)"
  by (simp add: sync_audio_def Let_def re_sub_def write_text_def)

lemma sync_audio_unchanged:
  "read_text (playlist_file w) = Inr content \<Longrightarrow>
   compile_repl esc (set_content (audio_files (audio_dir w))) = Inr f \<Longrightarrow>
   sub_all f content = content \<Longrightarrow>
   sync_audio esc w = (None, emit no_changes_line (emit [] (report_files w)))"
  by (simp add: sync_audio_def Let_def re_sub_def no_changes_line_def)

lemma compile_repl_plain: "backslash \<notin> set repl \<Longrightarrow> compile_repl esc repl = Inr (\<lambda>m. repl)"
  by (simp add: compile_repl_def)

lemma backslash_set_content:
  assumes "\<forall>n \<in> set names. backslash \<notin> set n"
  shows "backslash \<notin> set (set_content names)"
proof -
  have "backslash \<notin> set block_open" "backslash \<notin> set block_close"
    by (simp_all add: block_open_def block_close_def backslash_def newline_def)
  moreover from assms have "\<forall>n \<in> set names. backslash \<notin> set (name_line n)"
    by (simp add: name_line_def backslash_def squote_def newline_def)
  ultimately show ?thesis by (simp add: set_content_block_text block_text_def)
qed

text \<open>The reading and writing of the file on small inputs: a byte order mark is text, an
  overlong form, a surrogate and a code point above U+10FFFF are not; carriage returns are
  read as line feeds; a file name that is not UTF-8 empties the file.\<close>

lemma read_text_examples:
  "valid_utf8 [CHR 0xEF, CHR 0xBB, CHR 0xBF, CHR ''x'']
   \<and> valid_utf8 [CHR 0xF4, CHR 0x8F, CHR 0xBF, CHR 0xBF]
   \<and> \<not> valid_utf8 [CHR 0xC0, CHR 0x80]
   \<and> \<not> valid_utf8 [CHR 0xED, CHR 0xA0, CHR 0x80]
   \<and> \<not> valid_utf8 [CHR 0xF4, CHR 0x90, CHR 0x80, CHR 0x80]
   \<and> \<not> valid_utf8 [CHR 0xC2]
   \<and> universal_newlines (''a'' @ [carriage_return] @ ''b'' @ [carriage_return, newline] @ ''c''
         @ [newline, carriage_return] @ ''d'' @ [carriage_return])
       = ''a'' @ [newline] @ ''b'' @ [newline] @ ''c'' @ [newline, newline] @ ''d'' @ [newline]
   \<and> read_text (Some [CHR 0xFF]) = Inl UnicodeDecodeError
   \<and> read_text None = Inl FileNotFoundError"
  by code_simp

lemma sync_audio_unencodable_example:
  "sync_audio reject_escapes
     \<lparr>audio_dir = [''a'' @ [CHR 0xFF] @ ''b.wav''], playlist_file = Some (set_content []),
        printed = [], writes = 0\<rparr>
   = (Some UnicodeEncodeError,
      (report_files \<lparr>audio_dir = [''a'' @ [CHR 0xFF] @ ''b.wav''],
                      playlist_file = Some (set_content []), printed = [], writes = 0\<rparr>)
        \<lparr>playlist_file := Some [], writes := 1\<rparr>)"
  by code_simp

section \<open>Claims about the synchronizer\<close>

text \<open>
  Claim C3, as the code has it. \<^verbatim>\<open>re.sub\<close> replaces every match it finds on its scan from the
  left, not one. When the text read from the target file is \<open>pre @ blk @ post\<close>, no match
  starts in \<open>pre\<close>, \<open>blk\<close> is the match at its position and the rendered block has no
  backslash, the new text is \<open>pre\<close>, the rendered block, and \<open>post\<close> with its own matches
  replaced in the same way; \<open>pre\<close> and every character outside a match are kept. When
  \<open>post\<close> holds no match, exactly the one substring \<open>blk\<close> is replaced. The file is left as
  it is when the new text is the text read; otherwise it holds the new text, or nothing when
  the new text cannot be encoded.
\<close>

theorem sync_replaces_every_block:
  assumes "read_text (playlist_file w) = Inr (pre @ blk @ post)"
    and "clear_before pre (blk @ post)"
    and "match_block (blk @ post) = Some post"
    and "backslash \<notin> set (set_content (audio_files (audio_dir w)))"
  shows "re_sub esc (set_content (audio_files (audio_dir w))) (pre @ blk @ post)
        = Inr (pre @ set_content (audio_files (audio_dir w))
               @ sub_all (\<lambda>m. set_content (audio_files (audio_dir w))) post)
    \<and> re_sub esc (set_content (audio_files (audio_dir w))) post
        = Inr (sub_all (\<lambda>m. set_content (audio_files (audio_dir w))) post)
    \<and> (no_match post \<longrightarrow>
         sub_all (\<lambda>m. set_content (audio_files (audio_dir w))) post = post)
    \<and> (pre @ set_content (audio_files (audio_dir w))
          @ sub_all (\<lambda>m. set_content (audio_files (audio_dir w))) post = pre @ blk @ post \<longrightarrow>
         fst (sync_audio esc w) = None
         \<and> playlist_file (snd (sync_audio esc w)) = playlist_file w)
    \<and> (pre @ set_content (audio_files (audio_dir w))
          @ sub_all (\<lambda>m. set_content (audio_files (audio_dir w))) post \<noteq> pre @ blk @ post
        \<and> valid_utf8 (pre @ set_content (audio_files (audio_dir w))
                       @ sub_all (\<lambda>m. set_content (audio_files (audio_dir w))) post) \<longrightarrow>
         fst (sync_audio esc w) = None
         \<and> playlist_file (snd (sync_audio esc w))
             = Some (pre @ set_content (audio_files (audio_dir w))
                     @ sub_all (\<lambda>m. set_content (audio_files (audio_dir w))) post))
    \<and> (pre @ set_content (audio_files (audio_dir w))
          @ sub_all (\<lambda>m. set_content (audio_files (audio_dir w))) post \<noteq> pre @ blk @ post
        \<and> \<not> valid_utf8 (pre @ set_content (audio_files (audio_dir w))
                         @ sub_all (\<lambda>m. set_content (audio_files (audio_dir w))) post) \<longrightarrow>
         fst (sync_audio esc w) = Some UnicodeEncodeError
         \<and> playlist_file (snd (sync_audio esc w)) = Some [])"
proof -
  let ?B = "set_content (audio_files (audio_dir w))"
  let ?new = "pre @ ?B @ sub_all (\<lambda>m. ?B) post"
  have c: "compile_repl esc ?B = Inr (\<lambda>m. ?B)" using assms(4) by (rule compile_repl_plain)
  from assms(2) have "\<forall>k<length pre. match_block (drop k (pre @ blk @ post)) = None"
    by (simp only: clear_before_iff)
  from sub_all_first[OF this assms(3), of "\<lambda>m. ?B"]
  have s: "sub_all (\<lambda>m. ?B) (pre @ blk @ post) = ?new" .
  have 1: "re_sub esc ?B (pre @ blk @ post) = Inr ?new" by (simp add: re_sub_def c s)
  have 2: "re_sub esc ?B post = Inr (sub_all (\<lambda>m. ?B) post)" by (simp add: re_sub_def c)
  have 3: "no_match post \<longrightarrow> sub_all (\<lambda>m. ?B) post = post" by (simp add: sub_all_no_match)
  have 4: "?new = pre @ blk @ post \<longrightarrow>
      fst (sync_audio esc w) = None \<and> playlist_file (snd (sync_audio esc w)) = playlist_file w"
  proof
    assume "?new = pre @ blk @ post"
    with s have "sub_all (\<lambda>m. ?B) (pre @ blk @ post) = pre @ blk @ post" by simp
    from sync_audio_unchanged[OF assms(1) c this]
    show "fst (sync_audio esc w) = None \<and> playlist_file (snd (sync_audio esc w)) = playlist_file w"
      by simp
  qed
  have 5: "?new \<noteq> pre @ blk @ post \<and> valid_utf8 ?new \<longrightarrow>
      fst (sync_audio esc w) = None \<and> playlist_file (snd (sync_audio esc w)) = Some ?new"
  proof
    assume a: "?new \<noteq> pre @ blk @ post \<and> valid_utf8 ?new"
    with s have "sub_all (\<lambda>m. ?B) (pre @ blk @ post) \<noteq> pre @ blk @ post"
      and "valid_utf8 (sub_all (\<lambda>m. ?B) (pre @ blk @ post))" by simp_all
    from sync_audio_changed[OF assms(1) c this] s
    show "fst (sync_audio esc w) = None \<and> playlist_file (snd (sync_audio esc w)) = Some ?new"
      by simp
  qed
  have 6: "?new \<noteq> pre @ blk @ post \<and> \<not> valid_utf8 ?new \<longrightarrow>
      fst (sync_audio esc w) = Some UnicodeEncodeError
      \<and> playlist_file (snd (sync_audio esc w)) = Some []"
  proof
    assume a: "?new \<noteq> pre @ blk @ post \<and> \<not> valid_utf8 ?new"
    with s have "sub_all (\<lambda>m. ?B) (pre @ blk @ post) \<noteq> pre @ blk @ post"
      and "\<not> valid_utf8 (sub_all (\<lambda>m. ?B) (pre @ blk @ post))" by simp_all
    from sync_audio_unencodable[OF assms(1) c this]
    show "fst (sync_audio esc w) = Some UnicodeEncodeError
      \<and> playlist_file (snd (sync_audio esc w)) = Some []"
      by simp
  qed
  show ?thesis by (rule conjI[OF 1 conjI[OF 2 conjI[OF 3 conjI[OF 4 conjI[OF 5 6]]]]])
qed

theorem sync_replaces_every_block_witness:
  "read_text (playlist_file demo_world) = Inr ((''// header'' @ [newline]) @ block_x @ [newline])
   \<and> clear_before (''// header'' @ [newline]) (block_x @ [newline])
   \<and> match_block (block_x @ [newline]) = Some [newline]
   \<and> backslash \<notin> set (set_content (audio_files (audio_dir demo_world)))
   \<and> no_match [newline]
   \<and> ((''// header'' @ [newline]) @ set_content (audio_files (audio_dir demo_world))
         @ sub_all (\<lambda>m. set_content (audio_files (audio_dir demo_world))) [newline]
       \<noteq> (''// header'' @ [newline]) @ block_x @ [newline]
      \<and> valid_utf8 ((''// header'' @ [newline]) @ set_content (audio_files (audio_dir demo_world))
           @ sub_all (\<lambda>m. set_content (audio_files (audio_dir demo_world))) [newline]))
   \<and> sub_all (\<lambda>m. set_content (audio_files (audio_dir demo_world))) [newline] = [newline]
   \<and> (fst (sync_audio reject_escapes demo_world) = None
      \<and> playlist_file (snd (sync_audio reject_escapes demo_world))
          = Some ((''// header'' @ [newline]) @ set_content (audio_files (audio_dir demo_world))
                  @ sub_all (\<lambda>m. set_content (audio_files (audio_dir demo_world))) [newline]))"
proof -
  have h1: "read_text (playlist_file demo_world)
      = Inr ((''// header'' @ [newline]) @ block_x @ [newline])"
    and h2: "clear_before (''// header'' @ [newline]) (block_x @ [newline])"
    and h3: "match_block (block_x @ [newline]) = Some [newline]"
    and h4: "backslash \<notin> set (set_content (audio_files (audio_dir demo_world)))"
    and h5: "no_match [newline]"
    by code_simp+
  have h6: "(''// header'' @ [newline]) @ set_content (audio_files (audio_dir demo_world))
         @ sub_all (\<lambda>m. set_content (audio_files (audio_dir demo_world))) [newline]
       \<noteq> (''// header'' @ [newline]) @ block_x @ [newline]
      \<and> valid_utf8 ((''// header'' @ [newline]) @ set_content (audio_files (audio_dir demo_world))
           @ sub_all (\<lambda>m. set_content (audio_files (audio_dir demo_world))) [newline])"
    by code_simp
  note r = sync_replaces_every_block[OF h1 h2 h3 h4, of reject_escapes]
  note r3 = r[THEN conjunct2, THEN conjunct2, THEN conjunct1, THEN mp, OF h5]
  note r5 = r[THEN conjunct2, THEN conjunct2, THEN conjunct2, THEN conjunct2, THEN conjunct1,
      THEN mp, OF h6]
  show ?thesis
    by (rule conjI[OF h1 conjI[OF h2 conjI[OF h3 conjI[OF h4 conjI[OF h5 conjI[OF h6
       conjI[OF r3 r5]]]]]]])
qed

text \<open>
  Claim C3 as stated fails: on a file with two blocks and an empty audio directory both
  blocks are replaced. The result differs from the text with only the first block replaced
  and from the text with only the second block replaced.
\<close>

theorem sync_replaces_two_blocks:
  "match_block block_x = Some []
   \<and> audio_files (audio_dir two_world) = []
   \<and> playlist_file two_world = Some (block_x @ [newline] @ block_x)
   \<and> read_text (playlist_file two_world) = Inr (block_x @ [newline] @ block_x)
   \<and> playlist_file (snd (sync_audio reject_escapes two_world))
       = Some (set_content [] @ [newline] @ set_content [])
   \<and> set_content [] @ [newline] @ set_content [] \<noteq> set_content [] @ [newline] @ block_x
   \<and> set_content [] @ [newline] @ set_content [] \<noteq> block_x @ [newline] @ set_content []"
  by code_simp




text \<open>
  Claim C5, as the code has it. The target file can be read; every place of the text read
  where the opening marker stands either starts a match or has no match at or after it; and
  no collected name holds a quote, a backslash or a carriage return. Then the second of two
  runs in succession raises nothing, leaves the file and the write count as the first run
  left them, and ends with the ``no changes'' line. The first run raises nothing, or it
  raises on encoding the new text.
\<close>

theorem sync_idempotent:
  assumes "read_text (playlist_file w) = Inr content"
    and "settled content"
    and "\<forall>n \<in> set (audio_files (audio_dir w)).
           squote \<notin> set n \<and> backslash \<notin> set n \<and> carriage_return \<notin> set n"
  shows "fst (sync_audio esc (snd (sync_audio esc w))) = None
    \<and> playlist_file (snd (sync_audio esc (snd (sync_audio esc w))))
        = playlist_file (snd (sync_audio esc w))
    \<and> writes (snd (sync_audio esc (snd (sync_audio esc w)))) = writes (snd (sync_audio esc w))
    \<and> snd (sync_audio esc (snd (sync_audio esc w)))
        = emit no_changes_line (emit [] (report_files (snd (sync_audio esc w))))
    \<and> (fst (sync_audio esc w) = None \<or> fst (sync_audio esc w) = Some UnicodeEncodeError)"
proof -
  let ?names = "audio_files (audio_dir w)"
  let ?B = "set_content ?names"
  let ?X = "concat (map name_line ?names) @ block_close"
  let ?f = "\<lambda>m :: string. ?B"
  let ?w1 = "snd (sync_audio esc w)"
  have B: "?B = block_open @ ?X" by (simp add: set_content_block_text block_text_def)
  from assms(3) have "backslash \<notin> set ?B" by (simp add: backslash_set_content)
  then have c: "compile_repl esc ?B = Inr ?f" by (rule compile_repl_plain)
  from assms(3) have crB: "carriage_return \<notin> set ?B" by (simp add: cr_set_content)
  have plain: "list_all plain_name ?names"
    using assms(3) audio_files_nonempty by (auto simp: list_all_iff plain_name_def)
  have self: "\<And>r. match_block (block_open @ ?X @ r) = Some r"
    using match_block_block_text[OF plain] by (simp add: block_text_def)
  from sub_all_idem[OF self assms(2)]
  have idem: "sub_all ?f (sub_all ?f content) = sub_all ?f content" by (simp only: B)
  have run2: "sync_audio esc ?w1 = (None, emit no_changes_line (emit [] (report_files ?w1)))"
    and run1: "fst (sync_audio esc w) = None \<or> fst (sync_audio esc w) = Some UnicodeEncodeError"
  proof -
    consider (same) "sub_all ?f content = content"
      | (changed) "sub_all ?f content \<noteq> content" "valid_utf8 (sub_all ?f content)"
      | (bad) "sub_all ?f content \<noteq> content" "\<not> valid_utf8 (sub_all ?f content)"
      by blast
    then have "sync_audio esc ?w1 = (None, emit no_changes_line (emit [] (report_files ?w1)))
        \<and> (fst (sync_audio esc w) = None \<or> fst (sync_audio esc w) = Some UnicodeEncodeError)"
    proof cases
      case same
      note r1 = sync_audio_unchanged[OF assms(1) c same]
      from r1 assms(1) have rd: "read_text (playlist_file ?w1) = Inr content" by simp
      from r1 c have c1: "compile_repl esc (set_content (audio_files (audio_dir ?w1))) = Inr ?f"
        by simp
      from sync_audio_unchanged[OF rd c1 same] r1 show ?thesis by simp
    next
      case changed
      note r1 = sync_audio_changed[OF assms(1) c changed]
      have "set (sub_all ?f content) \<subseteq> set ?B \<union> set content" by (rule set_sub_all)
      with crB read_text_no_cr[OF assms(1)]
      have "carriage_return \<notin> set (sub_all ?f content)" by blast
      with changed(2) have "read_text (Some (sub_all ?f content)) = Inr (sub_all ?f content)"
        by (rule read_text_written)
      with r1 have rd: "read_text (playlist_file ?w1) = Inr (sub_all ?f content)" by simp
      from r1 c have c1: "compile_repl esc (set_content (audio_files (audio_dir ?w1))) = Inr ?f"
        by simp
      from sync_audio_unchanged[OF rd c1 idem] r1 show ?thesis by simp
    next
      case bad
      note r1 = sync_audio_unencodable[OF assms(1) c bad]
      from r1 have rd: "read_text (playlist_file ?w1) = Inr []" by (simp add: read_text_empty)
      from r1 c have c1: "compile_repl esc (set_content (audio_files (audio_dir ?w1))) = Inr ?f"
        by simp
      have "sub_all ?f [] = []" by simp
      from sync_audio_unchanged[OF rd c1 this] r1 show ?thesis by simp
    qed
    then show "sync_audio esc ?w1 = (None, emit no_changes_line (emit [] (report_files ?w1)))"
      and "fst (sync_audio esc w) = None \<or> fst (sync_audio esc w) = Some UnicodeEncodeError"
      by blast+
  qed
  from run2 run1 show ?thesis by simp
qed

theorem sync_idempotent_witness:
  "read_text (playlist_file demo_world) = Inr (''// header'' @ [newline] @ block_x @ [newline])
   \<and> settled (''// header'' @ [newline] @ block_x @ [newline])
   \<and> audio_files (audio_dir demo_world) = [''a'', ''b'']
   \<and> fst (sync_audio reject_escapes (snd (sync_audio reject_escapes demo_world))) = None
   \<and> playlist_file (snd (sync_audio reject_escapes (snd (sync_audio reject_escapes demo_world))))
        = playlist_file (snd (sync_audio reject_escapes demo_world))
   \<and> writes (snd (sync_audio reject_escapes (snd (sync_audio reject_escapes demo_world))))
        = writes (snd (sync_audio reject_escapes demo_world))
   \<and> snd (sync_audio reject_escapes (snd (sync_audio reject_escapes demo_world)))
        = emit no_changes_line
            (emit [] (report_files (snd (sync_audio reject_escapes demo_world))))
   \<and> (fst (sync_audio reject_escapes demo_world) = None
       \<or> fst (sync_audio reject_escapes demo_world) = Some UnicodeEncodeError)"
proof -
  have h1: "read_text (playlist_file demo_world)
      = Inr (''// header'' @ [newline] @ block_x @ [newline])"
    and h2: "settled (''// header'' @ [newline] @ block_x @ [newline])"
    and h3: "audio_files (audio_dir demo_world) = [''a'', ''b'']"
    by code_simp+
  have h4: "\<forall>n \<in> set (audio_files (audio_dir demo_world)).
      squote \<notin> set n \<and> backslash \<notin> set n \<and> carriage_return \<notin> set n"
    unfolding h3 by (simp add: squote_def backslash_def carriage_return_def)
  note r = sync_idempotent[OF h1 h2 h4, of reject_escapes]
  show ?thesis by (rule conjI[OF h1 conjI[OF h2 conjI[OF h3 r]]])
qed

text \<open>
  Claim C5 as stated fails. In the first example the audio directory is empty and the file
  opens a block whose first name line is not closed and holds a whole block inside: the
  first run replaces the inner block, which makes the outer text a match, and the second run
  replaces that and writes the file again. In the second example the file is an empty block
  and the one audio file has a name with a quote, a line end and an empty block in it: the
  block the first run writes holds a match inside, which the second run replaces. In the
  third example the file is an empty block and the name of the one audio file holds a
  carriage return: the first run writes it, the second run reads it as a line feed, finds
  the rendered block different from the block read, writes the file again and prints the
  ``updated'' line.
\<close>

theorem sync_not_idempotent:
  "audio_dir nested_world = []
   \<and> fst (sync_audio reject_escapes nested_world) = None
   \<and> playlist_file (snd (sync_audio reject_escapes nested_world))
       = Some (block_open @ ''  '' @ [squote] @ ''abc'' @ set_content [] @ [squote] @ '',''
               @ [newline] @ block_close)
   \<and> writes (snd (sync_audio reject_escapes nested_world)) = 1
   \<and> fst (sync_audio reject_escapes (snd (sync_audio reject_escapes nested_world))) = None
   \<and> playlist_file (snd (sync_audio reject_escapes (snd (sync_audio reject_escapes nested_world))))
       = Some (set_content [])
   \<and> playlist_file (snd (sync_audio reject_escapes (snd (sync_audio reject_escapes nested_world))))
       \<noteq> playlist_file (snd (sync_audio reject_escapes nested_world))
   \<and> writes (snd (sync_audio reject_escapes (snd (sync_audio reject_escapes nested_world)))) = 2
   \<and> settled (set_content [])
   \<and> audio_files (audio_dir odd_world) = [odd_name]
   \<and> squote \<in> set odd_name
   \<and> playlist_file (snd (sync_audio reject_escapes odd_world)) = Some (set_content [odd_name])
   \<and> playlist_file (snd (sync_audio reject_escapes (snd (sync_audio reject_escapes odd_world))))
       = Some (block_open @ ''  '' @ [squote] @ ''x'' @ [squote] @ set_content [odd_name]
               @ [squote] @ '','' @ [newline] @ block_close)
   \<and> writes (snd (sync_audio reject_escapes (snd (sync_audio reject_escapes odd_world)))) = 2
   \<and> read_text (playlist_file cr_world) = Inr (set_content [])
   \<and> audio_files (audio_dir cr_world) = [''a'' @ [carriage_return] @ ''b'']
   \<and> squote \<notin> set (''a'' @ [carriage_return] @ ''b'')
   \<and> backslash \<notin> set (''a'' @ [carriage_return] @ ''b'')
   \<and> playlist_file (snd (sync_audio reject_escapes cr_world))
       = Some (set_content [''a'' @ [carriage_return] @ ''b''])
   \<and> read_text (playlist_file (snd (sync_audio reject_escapes cr_world)))
       = Inr (set_content [''a'' @ [newline] @ ''b''])
   \<and> fst (sync_audio reject_escapes (snd (sync_audio reject_escapes cr_world))) = None
   \<and> writes (snd (sync_audio reject_escapes (snd (sync_audio reject_escapes cr_world)))) = 2
   \<and> printed (snd (sync_audio reject_escapes (snd (sync_audio reject_escapes cr_world))))
       \<noteq> printed (emit no_changes_line
                    (emit [] (report_files (snd (sync_audio reject_escapes cr_world)))))"
  by code_simp

text \<open>
  Claim C7, as the code has it. The result is sorted and holds one stem for each matching
  entry of the listing. The stem of a matching entry is its name without \<^verbatim>\<open>.wav\<close>, except
  for the entry named \<^verbatim>\<open>.wav\<close>, whose stem is the whole name. When the names of the listing
  are distinct and none is \<^verbatim>\<open>.wav\<close>, the result has no duplicates.
\<close>

theorem collect_files_sorted:
  "sorted (audio_files listing)
   \<and> mset (audio_files listing) = mset (map stem (filter glob_wav listing))
   \<and> (\<forall>name \<in> set listing. glob_wav name \<longrightarrow>
         (if name = ''.wav'' then stem name = ''.wav'' else stem name @ ''.wav'' = name))
   \<and> (distinct listing \<and> ''.wav'' \<notin> set listing \<longrightarrow> distinct (audio_files listing))"
proof (intro conjI ballI impI)
  show "sorted (audio_files listing)" by (simp add: audio_files_def)
  show "mset (audio_files listing) = mset (map stem (filter glob_wav listing))"
    by (simp add: audio_files_def)
next
  fix name assume "glob_wav name"
  then show "if name = ''.wav'' then stem name = ''.wav'' else stem name @ ''.wav'' = name"
    by (rule stem_glob)
next
  assume "distinct listing \<and> ''.wav'' \<notin> set listing"
  then show "distinct (audio_files listing)" by (simp add: distinct_audio_files)
qed

theorem collect_files_sorted_witness:
  "''a.wav'' \<in> set demo_dir \<and> glob_wav ''a.wav''
   \<and> distinct demo_dir \<and> ''.wav'' \<notin> set demo_dir
   \<and> audio_files demo_dir = [''a'', ''b'']
   \<and> sorted (audio_files demo_dir)
   \<and> mset (audio_files demo_dir) = mset (map stem (filter glob_wav demo_dir))
   \<and> (if ''a.wav'' = ''.wav'' then stem ''a.wav'' = ''.wav''
       else stem ''a.wav'' @ ''.wav'' = ''a.wav'')
   \<and> distinct (audio_files demo_dir)"
proof -
  have h1: "''a.wav'' \<in> set demo_dir" and h2: "glob_wav ''a.wav''"
    and h3: "distinct demo_dir" and h4: "''.wav'' \<notin> set demo_dir"
    and h5: "audio_files demo_dir = [''a'', ''b'']"
    by code_simp+
  note r = collect_files_sorted[of demo_dir]
  note r1 = r[THEN conjunct1]
  note r2 = r[THEN conjunct2, THEN conjunct1]
  note r3 = r[THEN conjunct2, THEN conjunct2, THEN conjunct1, THEN bspec, OF h1, THEN mp, OF h2]
  note r4 = r[THEN conjunct2, THEN conjunct2, THEN conjunct2, THEN mp, OF conjI[OF h3 h4]]
  show ?thesis
    by (rule conjI[OF h1 conjI[OF h2 conjI[OF h3 conjI[OF h4 conjI[OF h5 conjI[OF r1
       conjI[OF r2 conjI[OF r3 r4]]]]]]]])
qed

text \<open>
  Claim C7 as stated fails: a directory with the two entries \<^verbatim>\<open>.wav\<close> and \<^verbatim>\<open>.wav.wav\<close>
  gives the stem \<^verbatim>\<open>.wav\<close> twice, and the stem of \<^verbatim>\<open>.wav\<close> keeps its extension.
\<close>

theorem collect_files_duplicates:
  "distinct [''.wav'', ''.wav.wav'']
   \<and> glob_wav ''.wav'' \<and> glob_wav ''.wav.wav''
   \<and> audio_files [''.wav'', ''.wav.wav''] = [''.wav'', ''.wav'']
   \<and> \<not> distinct (audio_files [''.wav'', ''.wav.wav''])
   \<and> stem ''.wav'' = ''.wav''"
  by code_simp

end
